theory Spec2Isabelle
  imports Main "HOL-Library.Sublist" "HOL-Library.AList"
begin

section \<open>Python string operations used by the engine\<close>

text \<open>
  A Python \<open>str\<close> is modelled as a \<open>string\<close>; a \<open>char\<close> stands for one code point
  below 256. The substring test \<open>kw in code\<close> is \<^const>\<open>sublist\<close>.
\<close>

definition is_linebreak :: "char \<Rightarrow> bool" where
  \<comment> \<open>the line boundaries of \<open>str.splitlines\<close> among the code points below 256\<close>
  "is_linebreak c =
     (c \<in> set [CHR 0x0A, CHR 0x0B, CHR 0x0C, CHR 0x0D, CHR 0x1C, CHR 0x1D, CHR 0x1E, CHR 0x85])"

fun splitlines_from :: "string \<Rightarrow> string \<Rightarrow> string list" where
  "splitlines_from cur [] = (if cur = [] then [] else [cur])"
| "splitlines_from cur (c # cs) =
     (if is_linebreak c then
        cur # (case cs of
                 [] \<Rightarrow> []
               | d # ds \<Rightarrow> if c = CHR 0x0D \<and> d = CHR 0x0A then splitlines_from [] ds
                          else splitlines_from [] cs)
      else splitlines_from (cur @ [c]) cs)"

definition splitlines :: "string \<Rightarrow> string list" where
  \<comment> \<open>\<open>s.splitlines()\<close>: no line boundaries kept, no empty last line, CR LF is one boundary\<close>
  "splitlines s = splitlines_from [] s"

definition isspace :: "char \<Rightarrow> bool" where
  \<comment> \<open>\<open>str.isspace\<close> on one code point below 256\<close>
  "isspace c =
     (c \<in> set [CHR 0x09, CHR 0x0A, CHR 0x0B, CHR 0x0C, CHR 0x0D, CHR 0x1C, CHR 0x1D, CHR 0x1E,
                CHR 0x1F, CHR 0x20, CHR 0x85, CHR 0xA0])"

definition strip :: "string \<Rightarrow> string" where
  \<comment> \<open>\<open>s.strip()\<close>\<close>
  "strip s = rev (dropWhile isspace (rev (dropWhile isspace s)))"

definition lower_char :: "char \<Rightarrow> char" where
  "lower_char c =
     (let n = (of_char c :: nat)
      in if (65 \<le> n \<and> n \<le> 90) \<or> (192 \<le> n \<and> n \<le> 222 \<and> n \<noteq> 215)
         then char_of (n + 32) else c)"

definition lower :: "string \<Rightarrow> string" where
  \<comment> \<open>\<open>s.lower()\<close>\<close>
  "lower s = map lower_char s"

function replace_nonempty :: "string \<Rightarrow> string \<Rightarrow> string \<Rightarrow> string" where
  "replace_nonempty old new [] = []"
| "replace_nonempty old new (c # cs) =
     (if old \<noteq> [] \<and> prefix old (c # cs)
      then new @ replace_nonempty old new (drop (length old) (c # cs))
      else c # replace_nonempty old new cs)"
  by pat_completeness auto
termination
  by (relation "measure (\<lambda>(old, new, s). length s)") auto

definition replace :: "string \<Rightarrow> string \<Rightarrow> string \<Rightarrow> string" where
  \<comment> \<open>\<open>s.replace(old, new)\<close>: the occurrences of \<open>old\<close> from the left, not overlapping;
      an empty \<open>old\<close> matches before every character and at the end\<close>
  "replace s old new =
     (if old = [] then new @ concat (map (\<lambda>c. c # new) s) else replace_nonempty old new s)"

fun split_from :: "char \<Rightarrow> string \<Rightarrow> string \<Rightarrow> string list" where
  "split_from sep cur [] = [cur]"
| "split_from sep cur (c # cs) =
     (if c = sep then cur # split_from sep [] cs else split_from sep (cur @ [c]) cs)"

definition split :: "string \<Rightarrow> char \<Rightarrow> string list" where
  \<comment> \<open>\<open>s.split(sep)\<close> for a separator of one character: empty pieces are kept\<close>
  "split s sep = split_from sep [] s"

definition join :: "string \<Rightarrow> string list \<Rightarrow> string" where
  \<comment> \<open>\<open>sep.join(xs)\<close>\<close>
  "join sep xs = (case xs of [] \<Rightarrow> [] | y # ys \<Rightarrow> y @ concat (map (\<lambda>z. sep @ z) ys))"

section \<open>Rules and keyword resolution\<close>

record rule =
  keyword :: string
  extension :: "string option"
  mode :: string

definition rule_keywords :: "rule \<Rightarrow> string list" where
  \<comment> \<open>\<open>Engine._keywords\<close>; \<open>CHR 0x22\<close> is the double quote\<close>
  "rule_keywords r =
     (if CHR 0x22 \<notin> set (keyword r) \<and> CHR '' '' \<in> set (keyword r)
      then split (keyword r) (CHR '' '')
      else if CHR 0x22 \<in> set (keyword r)
           then [replace (keyword r) [CHR 0x22] []]
           else [keyword r])"

section \<open>Matching modes of \<open>Engine.codes\<close>\<close>

subsection \<open>only-match\<close>

definition only_match :: "string list \<Rightarrow> string list \<Rightarrow> string list" where
  \<comment> \<open>the two nested loops, \<open>match_codes\<close> being the accumulator\<close>
  "only_match kws codes =
     fold (\<lambda>code match_codes.
             fold (\<lambda>kw match_codes. if sublist kw code then match_codes @ [code] else match_codes)
                  kws match_codes)
          codes []"

subsection \<open>normal-match\<close>

text \<open>
  Every line appended to \<open>match_codes\<close> is recorded together with the index it was read
  at (the index the source writes to the debug log); \<open>Engine.codes\<close> returns the lines alone.
\<close>

type_synonym emitted = "(int \<times> string) list"

definition scan_before :: "string list \<Rightarrow> int \<Rightarrow> int \<Rightarrow> int list \<times> emitted \<Rightarrow> int list \<times> emitted" where
  \<comment> \<open>body of \<open>for i in range(-3, -0)\<close>\<close>
  "scan_before codes idx i st =
     (let i_idx = idx + i; idxs = fst st; match_codes = snd st
      in if i_idx \<in> set idxs then st
         else if i_idx < 0 then st
         else if strip (codes ! nat i_idx) = [] then st
         else (idxs @ [i_idx], match_codes @ [(i_idx, codes ! nat i_idx)]))"

definition scan_after :: "string list \<Rightarrow> int \<Rightarrow> int \<Rightarrow> int list \<times> emitted \<Rightarrow> int list \<times> emitted" where
  \<comment> \<open>body of \<open>for i in range(1, 4)\<close>\<close>
  "scan_after codes idx i st =
     (let i_idx = idx + i; idxs = fst st; match_codes = snd st
      in if i_idx \<in> set idxs then st
         else if i_idx \<ge> int (length codes) then st
         else if strip (codes ! nat i_idx) = [] then st
         else (idxs @ [i_idx], match_codes @ [(i_idx, codes ! nat i_idx)]))"

definition window :: "string list \<Rightarrow> int \<Rightarrow> emitted \<Rightarrow> emitted" where
  \<comment> \<open>what one trigger (a line and a keyword it contains) appends; \<open>idxs\<close> starts empty\<close>
  "window codes idx match_codes =
     (let st1 = fold (scan_before codes idx) [-3, -2, -1] ([], match_codes);
          st2 = (if idx \<notin> set (fst st1)
                 then (fst st1, snd st1 @ [(idx, codes ! nat idx)]) else st1);
          st3 = fold (scan_after codes idx) [1, 2, 3] st2
      in snd st3)"

definition normal_match_emitted :: "string list \<Rightarrow> string list \<Rightarrow> emitted" where
  "normal_match_emitted kws codes =
     fold (\<lambda>(idx, code) match_codes.
             fold (\<lambda>keyword match_codes.
                     if sublist keyword code then window codes (int idx) match_codes
                     else match_codes)
                  kws match_codes)
          (enumerate 0 codes) []"

definition normal_match :: "string list \<Rightarrow> string list \<Rightarrow> string list" where
  "normal_match kws codes = map snd (normal_match_emitted kws codes)"

section \<open>Mail mode\<close>

subsection \<open>The regular expressions\<close>

definition is_digit :: "char \<Rightarrow> bool" where
  "is_digit c = (48 \<le> (of_char c :: nat) \<and> (of_char c :: nat) \<le> 57)"

definition is_alnum :: "char \<Rightarrow> bool" where
  \<comment> \<open>the class \<open>a-zA-Z0-9\<close>\<close>
  "is_alnum c =
     (let n = (of_char c :: nat)
      in (97 \<le> n \<and> n \<le> 122) \<or> (65 \<le> n \<and> n \<le> 90) \<or> (48 \<le> n \<and> n \<le> 57))"

definition local_char :: "char \<Rightarrow> bool" where
  \<comment> \<open>\<open>[a-zA-Z0-9_.+-]\<close>\<close>
  "local_char c = (is_alnum c \<or> c \<in> set ''_.+-'')"

definition host_head_char :: "char \<Rightarrow> bool" where
  \<comment> \<open>\<open>[a-zA-Z0-9-]\<close>\<close>
  "host_head_char c = (is_alnum c \<or> c = CHR ''-'')"

definition host_tail_char :: "char \<Rightarrow> bool" where
  \<comment> \<open>\<open>[a-zA-Z0-9-.]\<close>\<close>
  "host_tail_char c = (is_alnum c \<or> c = CHR ''-'' \<or> c = CHR ''.'')"

definition match_host :: "string \<Rightarrow> (string \<times> string) option" where
  \<comment> \<open>\<open>[a-zA-Z0-9-]+\.[a-zA-Z0-9-.]+\<close> at the start of the text: the match and the rest.
      Each greedy run is followed by a character outside its class, so no shorter run matches.\<close>
  "match_host s =
     (let d1 = takeWhile host_head_char s; r1 = dropWhile host_head_char s
      in if d1 = [] then None
         else case r1 of
                [] \<Rightarrow> None
              | c # r2 \<Rightarrow>
                  if c \<noteq> CHR ''.'' then None
                  else let d2 = takeWhile host_tail_char r2
                       in if d2 = [] then None
                          else Some (d1 @ [CHR ''.''] @ d2, dropWhile host_tail_char r2))"

definition match_mail :: "string \<Rightarrow> (string \<times> string) option" where
  \<comment> \<open>\<open>regex_mail\<close> at the start of the text\<close>
  "match_mail s =
     (let l = takeWhile local_char s; r = dropWhile local_char s
      in if l = [] then None
         else case r of
                [] \<Rightarrow> None
              | c # r1 \<Rightarrow>
                  if c \<noteq> CHR ''@'' then None
                  else case match_host r1 of
                         None \<Rightarrow> None
                       | Some (h, rest) \<Rightarrow> Some (l @ [CHR ''@''] @ h, rest))"

lemma match_host_rest: "match_host s = Some (h, rest) \<Longrightarrow> length rest < length s"
proof -
  assume a: "match_host s = Some (h, rest)"
  obtain c r2 where r1: "dropWhile host_head_char s = c # r2" and rest: "rest = dropWhile host_tail_char r2"
    using a by (auto simp: match_host_def Let_def split: if_splits list.splits)
  have "length rest \<le> length r2"
    by (simp add: rest length_dropWhile_le)
  moreover have "length (c # r2) \<le> length s"
    using length_dropWhile_le [of host_head_char s] by (simp add: r1)
  ultimately show ?thesis by simp
qed

lemma match_mail_rest: "match_mail s = Some (m, rest) \<Longrightarrow> length rest < length s"
proof -
  assume a: "match_mail s = Some (m, rest)"
  obtain c r1 h where r: "dropWhile local_char s = c # r1" and h: "match_host r1 = Some (h, rest)"
    using a by (auto simp: match_mail_def Let_def split: if_splits list.splits option.splits)
  have "length (c # r1) \<le> length s"
    using length_dropWhile_le [of local_char s] by (simp add: r)
  with match_host_rest [OF h] show ?thesis by simp
qed

function findall_mail :: "string \<Rightarrow> string list" where
  "findall_mail [] = []"
| "findall_mail (c # cs) =
     (case match_mail (c # cs) of
        None \<Rightarrow> findall_mail cs
      | Some (m, rest) \<Rightarrow> m # findall_mail rest)"
  by pat_completeness auto
termination
  by (relation "measure length") (auto dest: match_mail_rest)

function findall_host :: "string \<Rightarrow> string list" where
  "findall_host [] = []"
| "findall_host (c # cs) =
     (if c = CHR ''@''
      then case match_host cs of
             None \<Rightarrow> findall_host cs
           | Some (h, rest) \<Rightarrow> h # findall_host rest
      else findall_host cs)"
  by pat_completeness auto
termination
proof (relation "measure length")
  show "wf (measure length)" by simp
next
  fix c :: char and cs :: string and x2 :: "string \<times> string" and h rest :: string
  assume "c = CHR ''@''" and "match_host cs = Some x2" and "(h, rest) = x2"
  then have "match_host cs = Some (h, rest)" by simp
  then have "length rest < length cs" by (rule match_host_rest)
  then show "(rest, c # cs) \<in> measure length" by simp
qed auto

text \<open>
  \<open>findall_mail s\<close> is \<open>re.findall(regex_mail, s)\<close>: the leftmost matches, the search going
  on after each match. \<open>findall_host s\<close> is \<open>re.findall(regex_host, s)\<close>: the group after
  each \<open>@\<close>.
\<close>

definition octet :: "string \<Rightarrow> bool" where
  \<comment> \<open>\<open>[0-9]|[1-9][0-9]|1[0-9]{2}|2[0-4][0-9]|25[0-5]\<close>\<close>
  "octet s =
     (case s of
        [a] \<Rightarrow> is_digit a
      | [a, b] \<Rightarrow> is_digit a \<and> a \<noteq> CHR ''0'' \<and> is_digit b
      | [a, b, c] \<Rightarrow>
          (a = CHR ''1'' \<and> is_digit b \<and> is_digit c) \<or>
          (a = CHR ''2'' \<and> b \<in> set ''01234'' \<and> is_digit c) \<or>
          (a = CHR ''2'' \<and> b = CHR ''5'' \<and> c \<in> set ''012345'')
      | _ \<Rightarrow> False)"

definition dotted_quad :: "string \<Rightarrow> bool" where
  "dotted_quad s =
     (case split s (CHR ''.'') of
        [a, b, c, d] \<Rightarrow> octet a \<and> octet b \<and> octet c \<and> octet d
      | _ \<Rightarrow> False)"

definition regex_ip_match :: "string \<Rightarrow> bool" where
  \<comment> \<open>\<open>re.match(regex_ip, s) is not None\<close>; \<open>$\<close> also matches before a last newline\<close>
  "regex_ip_match s =
     (dotted_quad s \<or> (s \<noteq> [] \<and> last s = CHR 0x0A \<and> dotted_quad (butlast s)))"

subsection \<open>What the engine calls outside this file\<close>

datatype py_error = IndexError

datatype title_result = TitleAbsent | TitleString string | TitleException

text \<open>
  The configuration tables and the library calls, as parameters:
  \<open>re_search p s\<close> is \<open>re.search(p, s) is not None\<close>;
  \<open>get_tld\<close> is \<open>None\<close> where the library raises;
  \<open>iptype h\<close> is \<open>IP(h).iptype()\<close>;
  \<open>requests_get url\<close> is the exception's text or the content of the response;
  \<open>soup_title\<close> tells whether the parsed page has no title, has a title string, or whether
  parsing or reading the title string raises.
\<close>

record externals =
  public_mail_services :: "string list"
  exclude_repository_rules :: "string list"
  exclude_codes_rules :: "string list"
  re_search :: "string \<Rightarrow> string \<Rightarrow> bool"
  get_tld :: "string \<Rightarrow> string option"
  iptype :: "string \<Rightarrow> string"
  requests_get :: "string \<Rightarrow> string + string"
  soup_title :: "string \<Rightarrow> title_result"

subsection \<open>\<open>Engine._mail\<close>\<close>

record mail_state =
  mails :: "string list"
  mail_match_codes :: "string list"
  mail_requests :: "string list"

definition mail_domain :: "externals \<Rightarrow> string \<Rightarrow> string" where
  "mail_domain ext host =
     (if \<not> regex_ip_match host
      then (let top_domain = (case get_tld ext host of None \<Rightarrow> host | Some t \<Rightarrow> t)
            in if top_domain = host then ''http://www.'' @ host else ''http://'' @ host)
      else ''http://'' @ host)"

definition mail_title :: "externals \<Rightarrow> string \<Rightarrow> string" where
  \<comment> \<open>the title after a request to \<open>domain\<close>\<close>
  "mail_title ext domain =
     (case requests_get ext domain of
        Inl e \<Rightarrow> ''<'' @ e @ ''>''
      | Inr response \<Rightarrow>
          (case soup_title ext response of
             TitleAbsent \<Rightarrow> ''<Unknown>''
           | TitleString t \<Rightarrow> take 150 (strip t)
           | TitleException \<Rightarrow> ''Exception''))"

definition is_inner_ip :: "externals \<Rightarrow> string \<Rightarrow> bool" where
  \<comment> \<open>the flag \<open>is_inner_ip\<close> for a host\<close>
  "is_inner_ip ext host = (regex_ip_match host \<and> iptype ext host = ''PRIVATE'')"

definition mail_fragment :: "externals \<Rightarrow> string \<Rightarrow> string \<Rightarrow> string" where
  \<comment> \<open>the fragment appended for an address and its host; the title is requested only
      where the host is not an inner IP\<close>
  "mail_fragment ext mail host =
     (let domain = mail_domain ext host;
          title = (if \<not> is_inner_ip ext host then mail_title ext domain else ''<Inner IP>'')
      in mail @ '' '' @ domain @ '' '' @ title)"

definition mail_step :: "externals \<Rightarrow> string \<Rightarrow> mail_state \<Rightarrow> py_error + mail_state" where
  \<comment> \<open>body of \<open>for mm in mail_multi\<close>; \<open>host[0]\<close> raises on an empty list\<close>
  "mail_step ext mm st =
     (let mail = lower (strip mm)
      in if mail \<in> set (mails st) then Inr st
         else case findall_host mail of
                [] \<Rightarrow> Inl IndexError
              | h # _ \<Rightarrow>
                  let host = strip h
                  in if host \<in> set (public_mail_services ext) then Inr st
                     else Inr (st\<lparr>mails := mails st @ [mail],
                                  mail_match_codes :=
                                    mail_match_codes st @ [mail_fragment ext mail host],
                                  mail_requests :=
                                    (if \<not> is_inner_ip ext host
                                     then mail_requests st @ [mail_domain ext host]
                                     else mail_requests st)\<rparr>))"

fun mail_loop :: "externals \<Rightarrow> string list \<Rightarrow> mail_state \<Rightarrow> py_error + mail_state" where
  "mail_loop ext [] st = Inr st"
| "mail_loop ext (mm # mail_multi) st =
     (case mail_step ext mm st of
        Inl err \<Rightarrow> Inl err
      | Inr st' \<Rightarrow> mail_loop ext mail_multi st')"

definition mail :: "externals \<Rightarrow> string \<Rightarrow> py_error + mail_state" where
  \<comment> \<open>\<open>Engine._mail\<close> on \<open>self.code\<close>: the fragments, and the URLs requested, in order\<close>
  "mail ext code =
     mail_loop ext (findall_mail code) \<lparr>mails = [], mail_match_codes = [], mail_requests = []\<rparr>"

subsection \<open>Notions used to state the properties of mail mode\<close>

text \<open>
  \<open>address_shape m l d1 d2\<close>: the text \<open>m\<close> is a match of \<open>regex_mail\<close> with local part
  \<open>l\<close> and host \<open>d1.d2\<close>. \<open>mail_host addr\<close> is the host the loop computes for an address
  (\<open>host[0].strip()\<close>). \<open>mail_inv\<close> relates the three lists the loop builds.
\<close>

definition address_shape :: "string \<Rightarrow> string \<Rightarrow> string \<Rightarrow> string \<Rightarrow> bool" where
  "address_shape m l d1 d2 =
     (m = l @ [CHR ''@''] @ d1 @ [CHR ''.''] @ d2
      \<and> l \<noteq> [] \<and> (\<forall>c \<in> set l. local_char c)
      \<and> d1 \<noteq> [] \<and> (\<forall>c \<in> set d1. host_head_char c)
      \<and> d2 \<noteq> [] \<and> (\<forall>c \<in> set d2. host_tail_char c))"

definition mail_host :: "string \<Rightarrow> string" where
  "mail_host addr = (case findall_host addr of [] \<Rightarrow> [] | h # _ \<Rightarrow> strip h)"

definition mail_inv :: "externals \<Rightarrow> mail_state \<Rightarrow> bool" where
  "mail_inv ext st =
     (mail_match_codes st = map (\<lambda>addr. mail_fragment ext addr (mail_host addr)) (mails st)
      \<and> (\<forall>addr \<in> set (mails st). findall_host addr \<noteq> []
                                  \<and> mail_host addr \<notin> set (public_mail_services ext))
      \<and> (\<forall>u \<in> set (mail_requests st).
            \<exists>addr \<in> set (mails st). u = mail_domain ext (mail_host addr)
                                    \<and> \<not> is_inner_ip ext (mail_host addr)))"

section \<open>\<open>Engine.codes\<close>\<close>

definition codes :: "externals \<Rightarrow> rule \<Rightarrow> string \<Rightarrow> py_error + (string \<times> string list \<times> string list)" where
  \<comment> \<open>from the rule and \<open>self.code\<close>: the new \<open>self.code\<close>, the fragments returned, and the
      URLs requested on the way\<close>
  "codes ext r self_code =
     (let code = replace self_code ''<img'' [];
          cs = splitlines code;
          kws = rule_keywords r
      in if mode r = ''mail'' then
           (case mail ext code of
              Inl err \<Rightarrow> Inl err
            | Inr st \<Rightarrow> Inr (code, mail_match_codes st, mail_requests st))
         else if mode r = ''only-match'' then Inr (code, only_match kws cs, [])
         else if mode r = ''normal-match'' then Inr (code, normal_match kws cs, [])
         else Inr (code, take 20 (splitlines code), []))"

section \<open>The engine\<close>

definition per_page :: nat where
  "per_page = 50"

definition default_pages :: nat where
  "default_pages = 4"

text \<open>
  One item of a page of search results. \<open>hit_sha\<close> is \<open>None\<close> where reading \<open>content.sha\<close>
  raises, \<open>decoded_content\<close> is \<open>None\<close> where fetching or decoding the content raises.
\<close>

record hit =
  html_url :: string
  hit_sha :: "string option"
  hit_path :: string
  repository_full_name :: string
  repository_html_url :: string
  decoded_content :: "string option"

record scan_result =
  r_url :: string
  r_match_codes :: "string list"
  r_hash :: string
  r_code :: string
  r_repository :: string
  r_path :: string

text \<open>
  What the engine does to the outside, in order: the lines it logs for a hit (with the
  position \<open>current_i\<close> of the hit), the requests of mail mode, the calls of \<open>clone\<close> and
  the calls of \<open>Process(...).process()\<close> with the dictionary handed over.
\<close>

datatype event =
    Log_skip_rule nat
  | Log_sha_exception
  | Log_processed nat
  | Log_excluded nat
  | Log_content_exception
  | Log_not_matched nat
  | Log_review nat
  | Log_complete nat
  | Log_page_timeout nat
  | Http_get string
  | Clone string string
  | Process_report "(nat \<times> scan_result) list"

text \<open>
  The fields of \<open>Engine\<close> that the scan reads and writes. A dictionary is an association
  list in insertion order, \<open>d[k] = v\<close> being \<^const>\<open>AList.update\<close>.
\<close>

record engine =
  token :: string
  rule_object :: rule
  code :: string
  full_name :: string
  sha :: string
  url :: string
  path :: string
  result :: "(nat \<times> scan_result) list"
  exclude_result :: "(nat \<times> scan_result) list"
  hash_list :: "string list"
  processed_count :: nat
  next_count :: nat
  events :: "event list"

definition emit :: "event list \<Rightarrow> engine \<Rightarrow> engine" where
  "emit evs e = e\<lparr>events := events e @ evs\<rparr>"

definition exclude_repository :: "externals \<Rightarrow> engine \<Rightarrow> bool" where
  \<comment> \<open>\<open>Engine._exclude_repository\<close>\<close>
  "exclude_repository ext e =
     (let full_path = lower (full_name e) @ ''/'' @ lower (path e)
      in \<exists>err \<in> set (exclude_repository_rules ext). re_search ext err full_path)"

definition exclude_codes :: "externals \<Rightarrow> string list \<Rightarrow> bool" where
  \<comment> \<open>\<open>Engine._exclude_codes\<close>\<close>
  "exclude_codes ext cs =
     (\<exists>ecr \<in> set (exclude_codes_rules ext). re_search ext ecr (join [CHR 0x0A] cs))"

definition seen :: "hit \<Rightarrow> engine \<Rightarrow> bool" where
  \<comment> \<open>the outcome of the test \<open>self.sha in self.hash_list\<close> for an item: the identity
      is the empty string where reading the sha raises\<close>
  "seen content e = ((case hit_sha content of Some s \<Rightarrow> s | None \<Rightarrow> []) \<in> set (hash_list e))"

definition read_sha :: "hit \<Rightarrow> engine \<Rightarrow> engine" where
  \<comment> \<open>\<open>self.url = content.html_url\<close> and the \<open>try\<close> around \<open>self.sha = content.sha\<close>\<close>
  "read_sha content e =
     (let e1 = e\<lparr>url := html_url content\<rparr>
      in case hit_sha content of
           Some s \<Rightarrow> e1\<lparr>sha := s\<rparr>
         | None \<Rightarrow> emit [Log_sha_exception] (e1\<lparr>sha := [], url := []\<rparr>))"

definition record_match :: "externals \<Rightarrow> nat \<Rightarrow> hit \<Rightarrow> string list \<Rightarrow> engine \<Rightarrow> engine" where
  \<comment> \<open>the end of the loop body, from \<open>result = {...}\<close> to \<open>self.next_count += 1\<close>\<close>
  "record_match ext current_i content match_codes e =
     (let res = \<lparr>r_url = url e, r_match_codes = match_codes, r_hash = sha e, r_code = code e,
                 r_repository = full_name e, r_path = path e\<rparr>;
          e5 = (if exclude_codes ext match_codes
                then (emit [Log_review current_i] e)
                       \<lparr>exclude_result := AList.update current_i res (exclude_result e)\<rparr>
                else e\<lparr>result := AList.update current_i res (result e)\<rparr>)
      in (emit [Clone (repository_html_url content) (sha e5), Log_complete current_i] e5)
           \<lparr>next_count := next_count e5 + 1\<rparr>)"

definition process_hit :: "externals \<Rightarrow> nat \<Rightarrow> nat \<Rightarrow> hit \<Rightarrow> engine \<Rightarrow> py_error + (bool \<times> engine)" where
  \<comment> \<open>the body of the loop of \<open>process_pages\<close>: \<open>(False, e)\<close> is \<open>return False\<close>,
      \<open>(True, e)\<close> goes on with the next item\<close>
  "process_hit ext page index content e =
     (let current_i = page * per_page + index
      in if next_count e = 0 \<and> processed_count e > 3
         then Inr (False, emit [Log_skip_rule current_i] e)
         else
           let e2 = read_sha content e
           in if sha e2 \<in> set (hash_list e2)
              then Inr (True, (emit [Log_processed current_i] e2)
                                \<lparr>processed_count := processed_count e2 + 1\<rparr>)
              else
                let e3 = e2\<lparr>path := hit_path content,
                            full_name := strip (repository_full_name content)\<rparr>
                in if exclude_repository ext e3
                   then Inr (True, emit [Log_excluded current_i] e3)
                   else case decoded_content content of
                          None \<Rightarrow> Inr (True, emit [Log_content_exception] e3)
                        | Some text \<Rightarrow>
                            (case codes ext (rule_object e3) text of
                               Inl err \<Rightarrow> Inl err
                             | Inr (code', match_codes, requests) \<Rightarrow>
                                 let e4 = emit (map Http_get requests) (e3\<lparr>code := code'\<rparr>)
                                 in if length match_codes = 0
                                    then Inr (True, emit [Log_not_matched current_i] e4)
                                    else Inr (True, record_match ext current_i content
                                                      match_codes e4)))"

fun process_items :: "externals \<Rightarrow> nat \<Rightarrow> (nat \<times> hit) list \<Rightarrow> engine \<Rightarrow> py_error + (bool \<times> engine)" where
  "process_items ext page [] e = Inr (True, e)"
| "process_items ext page ((index, content) # rest) e =
     (case process_hit ext page index content e of
        Inl err \<Rightarrow> Inl err
      | Inr (go_on, e') \<Rightarrow> if go_on then process_items ext page rest e' else Inr (False, e'))"

definition process_pages :: "externals \<Rightarrow> hit list \<Rightarrow> nat \<Rightarrow> engine \<Rightarrow> py_error + (bool \<times> engine)" where
  \<comment> \<open>\<open>Engine.process_pages(pages_content, page, total)\<close>; \<open>total\<close> is only logged\<close>
  "process_pages ext pages_content page e =
     process_items ext page (enumerate 0 pages_content) e"

subsection \<open>\<open>Engine.search\<close>\<close>

record github_exception =
  status :: string
  data :: string

datatype failure = Timeout | GithubException github_exception

text \<open>
  The search client: the two rate limit properties and \<open>search_code\<close> may raise a
  \<open>GithubException\<close>; the count of a result and each of its pages may also time out.
\<close>

record resource =
  totalCount :: "failure + int"
  get_page :: "nat \<Rightarrow> failure + hit list"

record github =
  rate_limiting :: "github_exception + string"
  rate_limiting_resettime :: "github_exception + string"
  search_code :: "string \<Rightarrow> github_exception + resource"

datatype summary = Message string | Raised_timeout | Count nat

definition ext_query :: "rule \<Rightarrow> string" where
  "ext_query r =
     (case extension r of
        None \<Rightarrow> []
      | Some exts \<Rightarrow>
          fold (\<lambda>ext q. q @ ''extension:'' @ lower (strip ext) @ '' '') (split exts (CHR '','')) [])"

definition search_keyword :: "rule \<Rightarrow> string" where
  "search_keyword r = keyword r @ '' '' @ ext_query r"

definition exception_msg :: "string \<Rightarrow> github_exception \<Rightarrow> engine \<Rightarrow> string" where
  "exception_msg call ex e =
     ''GitHub ['' @ call @ ''] exception(code: '' @ status ex @ '' msg: '' @ data ex @ '' '' @ token e"

datatype loop_exit = Returned string | Broke | Exhausted

fun search_pages :: "externals \<Rightarrow> resource \<Rightarrow> nat list \<Rightarrow> engine \<Rightarrow> py_error + (loop_exit \<times> engine)" where
  \<comment> \<open>the loop over the pages, with the way it is left: \<open>Returned msg\<close> by the
      \<open>return\<close> of a failure, \<open>Broke\<close> by \<open>break\<close>, \<open>Exhausted\<close> at the end of the range\<close>
  "search_pages ext res [] e = Inr (Exhausted, e)"
| "search_pages ext res (page # pages) e =
     (let e1 = e\<lparr>result := [], exclude_result := []\<rparr>
      in case get_page res page of
           Inl Timeout \<Rightarrow> search_pages ext res pages (emit [Log_page_timeout page] e1)
         | Inl (GithubException ex) \<Rightarrow> Inr (Returned (exception_msg ''get_page'' ex e1), e1)
         | Inr pages_content \<Rightarrow>
             (case process_pages ext pages_content page e1 of
                Inl err \<Rightarrow> Inl err
              | Inr (go_on, e2) \<Rightarrow>
                  if \<not> go_on then Inr (Broke, e2)
                  else search_pages ext res pages (emit [Process_report (result e2)] e2)))"

definition search :: "externals \<Rightarrow> github \<Rightarrow> string list \<Rightarrow> rule \<Rightarrow> engine \<Rightarrow> py_error + ((bool \<times> rule \<times> summary) \<times> engine)" where
  \<comment> \<open>\<open>Engine.search(rule_object)\<close>; \<open>config_hash_list\<close> is what \<open>Config().hash_list()\<close> returns\<close>
  "search ext g config_hash_list r e =
     (let e0 = e\<lparr>rule_object := r, processed_count := 0, next_count := 0\<rparr>
      in case rate_limiting g of
           Inl ex \<Rightarrow> Inr ((False, r, Message (exception_msg ''search_code'' ex e0)), e0)
         | Inr _ \<Rightarrow>
         (case rate_limiting_resettime g of
           Inl ex \<Rightarrow> Inr ((False, r, Message (exception_msg ''search_code'' ex e0)), e0)
         | Inr _ \<Rightarrow>
         (case search_code g (search_keyword r) of
           Inl ex \<Rightarrow> Inr ((False, r, Message (exception_msg ''search_code'' ex e0)), e0)
         | Inr res \<Rightarrow>
         (case totalCount res of
           Inl Timeout \<Rightarrow> Inr ((False, r, Raised_timeout), e0)
         | Inl (GithubException ex) \<Rightarrow>
             Inr ((False, r, Message (exception_msg ''search_code'' ex e0)), e0)
         | Inr total_count \<Rightarrow>
             let e1 = e0\<lparr>hash_list := config_hash_list\<rparr>;
                 pages = (if total_count < int per_page then 1 else default_pages)
             in case search_pages ext res [0..<pages] e1 of
                  Inl err \<Rightarrow> Inl err
                | Inr (Returned msg, e2) \<Rightarrow> Inr ((False, r, Message msg), e2)
                | Inr (_, e2) \<Rightarrow> Inr ((True, r, Count (length (result e2))), e2)))))"

section \<open>Example inputs\<close>

definition example_externals :: externals where
  "example_externals =
     \<lparr>public_mail_services = [''qq.com''],
      exclude_repository_rules = [],
      exclude_codes_rules = [],
      re_search = (\<lambda>p s. False),
      get_tld = (\<lambda>h. None),
      iptype = (\<lambda>h. if prefix ''10.'' h then ''PRIVATE'' else ''PUBLIC''),
      requests_get = (\<lambda>u. Inl ''timed out''),
      soup_title = (\<lambda>r. TitleAbsent)\<rparr>"

definition example_rule :: rule where
  "example_rule = \<lparr>keyword = ''password'', extension = None, mode = ''only-match''\<rparr>"

definition example_engine :: engine where
  "example_engine =
     \<lparr>token = ''t'', rule_object = example_rule, code = [], full_name = [], sha = [], url = [],
      path = [], result = [], exclude_result = [], hash_list = [], processed_count = 0,
      next_count = 0, events = []\<rparr>"

definition seen_hit :: hit where
  \<comment> \<open>an item whose sha is in the hash list \<open>[''s1'']\<close>\<close>
  "seen_hit =
     \<lparr>html_url = ''u1'', hit_sha = Some ''s1'', hit_path = ''a.py'', repository_full_name = ''o/r'',
      repository_html_url = ''g'', decoded_content = Some ''password=1''\<rparr>"

definition new_hit :: hit where
  "new_hit =
     \<lparr>html_url = ''u2'', hit_sha = Some ''s2'', hit_path = ''b.py'', repository_full_name = ''o/r'',
      repository_html_url = ''g'', decoded_content = Some ''<img password''\<rparr>"

definition unreadable_hit :: hit where
  "unreadable_hit =
     \<lparr>html_url = ''u3'', hit_sha = Some ''s3'', hit_path = ''c.py'', repository_full_name = ''o/r'',
      repository_html_url = ''g'', decoded_content = None\<rparr>"

definition example_github :: "int \<Rightarrow> (nat \<Rightarrow> failure + hit list) \<Rightarrow> github" where
  \<comment> \<open>a client whose every search has the given count and pages\<close>
  "example_github n pages =
     \<lparr>rate_limiting = Inr ''(29, 30)'', rate_limiting_resettime = Inr ''0'',
      search_code = (\<lambda>q. Inr \<lparr>totalCount = Inr n, get_page = pages\<rparr>)\<rparr>"

section \<open>Properties of only-match mode\<close>

lemma only_match_inner:
  "fold (\<lambda>kw match_codes. if sublist kw ln then match_codes @ [ln] else match_codes) kws acc
     = acc @ replicate (length (filter (\<lambda>kw. sublist kw ln) kws)) ln"
  by (induction kws arbitrary: acc) (simp_all add: replicate_app_Cons_same)

lemma only_match_outer:
  "fold (\<lambda>ln match_codes.
           fold (\<lambda>kw match_codes. if sublist kw ln then match_codes @ [ln] else match_codes)
                kws match_codes) cs acc
     = acc @ concat (map (\<lambda>ln. replicate (length (filter (\<lambda>kw. sublist kw ln) kws)) ln) cs)"
  by (induction cs arbitrary: acc) (simp_all add: only_match_inner)

lemma only_match_events:
  "only_match kws cs
     = concat (map (\<lambda>ln. replicate (length (filter (\<lambda>kw. sublist kw ln) kws)) ln) cs)"
  by (simp add: only_match_def only_match_outer)

text \<open>
  Claim C9. In only-match mode \<open>codes\<close> returns the lines of the text (after the removal
  of \<open><img\<close>) in their order, each line once for every entry of the resolved keywords it
  contains, and nothing else; where the resolved keywords are distinct, that is once for
  every keyword the line contains. With the keyword \<open>password\<close> and the text
  \<open>db_password=123\<close> the fragments are exactly that one line.
\<close>

theorem codes_only_match:
  "(mode r = ''only-match'' \<longrightarrow>
      codes ext r c =
        Inr (replace c ''<img'' [],
             concat (map (\<lambda>line. replicate (length (filter (\<lambda>kw. sublist kw line) (rule_keywords r))) line)
                         (splitlines (replace c ''<img'' []))),
             []))
   \<and> (mode r = ''only-match'' \<and> distinct (rule_keywords r) \<longrightarrow>
      codes ext r c =
        Inr (replace c ''<img'' [],
             concat (map (\<lambda>line. replicate (card {kw \<in> set (rule_keywords r). sublist kw line}) line)
                         (splitlines (replace c ''<img'' []))),
             []))
   \<and> codes ext \<lparr>keyword = ''password'', extension = None, mode = ''only-match''\<rparr> ''db_password=123''
       = Inr (''db_password=123'', [''db_password=123''], [])"
proof (intro conjI)
  show g: "mode r = ''only-match'' \<longrightarrow>
      codes ext r c =
        Inr (replace c ''<img'' [],
             concat (map (\<lambda>line. replicate (length (filter (\<lambda>kw. sublist kw line) (rule_keywords r))) line)
                         (splitlines (replace c ''<img'' []))),
             [])"
    by (simp add: codes_def Let_def only_match_events)
  have n: "length (filter (\<lambda>kw. sublist kw line) (rule_keywords r))
             = card {kw \<in> set (rule_keywords r). sublist kw line}"
    if "distinct (rule_keywords r)" for line
  proof -
    have "{kw \<in> set (rule_keywords r). sublist kw line}
            = {kw. sublist kw line} \<inter> set (rule_keywords r)"
      by auto
    with that show ?thesis by (simp add: distinct_length_filter)
  qed
  show "mode r = ''only-match'' \<and> distinct (rule_keywords r) \<longrightarrow>
      codes ext r c =
        Inr (replace c ''<img'' [],
             concat (map (\<lambda>line. replicate (card {kw \<in> set (rule_keywords r). sublist kw line}) line)
                         (splitlines (replace c ''<img'' []))),
             [])"
    using g n by simp
  have r: "replace ''db_password=123'' ''<img'' [] = ''db_password=123''"
    by (simp add: replace_def)
  have s: "splitlines ''db_password=123'' = [''db_password=123'']"
    by (simp add: splitlines_def is_linebreak_def)
  have k: "rule_keywords \<lparr>keyword = ''password'', extension = None, mode = ''only-match''\<rparr> = [''password'']"
    by (simp add: rule_keywords_def)
  have m: "sublist ''password'' ''db_password=123''"
    by (simp add: sublist_code)
  show "codes ext \<lparr>keyword = ''password'', extension = None, mode = ''only-match''\<rparr> ''db_password=123''
       = Inr (''db_password=123'', [''db_password=123''], [])"
    by (simp add: codes_def Let_def only_match_events r s k m)
qed

theorem codes_only_match_witness:
  "mode \<lparr>keyword = ''a b'', extension = None, mode = ''only-match''\<rparr> = ''only-match''
   \<and> distinct (rule_keywords \<lparr>keyword = ''a b'', extension = None, mode = ''only-match''\<rparr>)
   \<and> codes example_externals \<lparr>keyword = ''a b'', extension = None, mode = ''only-match''\<rparr> ''ab\<newline>c\<newline>b''
       = Inr (''ab\<newline>c\<newline>b'', [''ab'', ''ab'', ''b''], [])"
proof -
  have r: "replace ''ab\<newline>c\<newline>b'' ''<img'' [] = ''ab\<newline>c\<newline>b''"
    by (simp add: replace_def)
  have s: "splitlines ''ab\<newline>c\<newline>b'' = [''ab'', ''c'', ''b'']"
    by (simp add: splitlines_def is_linebreak_def)
  have k: "rule_keywords \<lparr>keyword = ''a b'', extension = None, mode = ''only-match''\<rparr> = [''a'', ''b'']"
    by (simp add: rule_keywords_def split_def)
  show ?thesis
    using codes_only_match [of "\<lparr>keyword = ''a b'', extension = None, mode = ''only-match''\<rparr>" example_externals "''ab\<newline>c\<newline>b''"]
    by (simp add: r s k sublist_code)
qed

section \<open>Properties of normal-match mode\<close>

lemma scan_before_fold:
  "set (snd (fold (scan_before cs idx) offs st))
     \<subseteq> set (snd st) \<union> {(idx + i, cs ! nat (idx + i)) | i. i \<in> set offs \<and> 0 \<le> idx + i
                                  \<and> strip (cs ! nat (idx + i)) \<noteq> []}"
proof (induction offs arbitrary: st)
  case Nil
  then show ?case by simp
next
  case (Cons i offs)
  have "set (snd (scan_before cs idx i st))
          \<subseteq> set (snd st) \<union> {(idx + j, cs ! nat (idx + j)) | j. j \<in> set (i # offs) \<and> 0 \<le> idx + j
                                  \<and> strip (cs ! nat (idx + j)) \<noteq> []}"
    by (auto simp: scan_before_def Let_def)
  with Cons.IH [of "scan_before cs idx i st"] show ?case
    by auto
qed

lemma scan_after_fold:
  "set (snd (fold (scan_after cs idx) offs st))
     \<subseteq> set (snd st) \<union> {(idx + i, cs ! nat (idx + i)) | i. i \<in> set offs \<and> idx + i < int (length cs)
                                  \<and> strip (cs ! nat (idx + i)) \<noteq> []}"
proof (induction offs arbitrary: st)
  case Nil
  then show ?case by simp
next
  case (Cons i offs)
  have "set (snd (scan_after cs idx i st))
          \<subseteq> set (snd st) \<union> {(idx + j, cs ! nat (idx + j)) | j. j \<in> set (i # offs) \<and> idx + j < int (length cs)
                                  \<and> strip (cs ! nat (idx + j)) \<noteq> []}"
    by (auto simp: scan_after_def Let_def)
  with Cons.IH [of "scan_after cs idx i st"] show ?case
    by auto
qed

lemma window_subset:
  assumes "0 \<le> idx" "idx < int (length cs)"
  shows "set (window cs idx mc)
           \<subseteq> set mc \<union> {(j, cs ! nat j) | j. 0 \<le> j \<and> j < int (length cs) \<and> \<bar>j - idx\<bar> \<le> 3
                                 \<and> (j \<noteq> idx \<longrightarrow> strip (cs ! nat j) \<noteq> [])}"
    (is "_ \<subseteq> _ \<union> ?W")
proof -
  define st1 where "st1 = fold (scan_before cs idx) [-3, -2, -1] ([], mc)"
  define st2 where "st2 = (if idx \<notin> set (fst st1)
                 then (fst st1, snd st1 @ [(idx, cs ! nat idx)]) else st1)"
  have w: "window cs idx mc = snd (fold (scan_after cs idx) [1, 2, 3] st2)"
    unfolding window_def st1_def st2_def Let_def ..
  have b: "{(idx + i, cs ! nat (idx + i)) | i. i \<in> set [-3, -2, -1] \<and> 0 \<le> idx + i
                                  \<and> strip (cs ! nat (idx + i)) \<noteq> []} \<subseteq> ?W"
    using assms by auto
  have a: "{(idx + i, cs ! nat (idx + i)) | i. i \<in> set [1, 2, 3] \<and> idx + i < int (length cs)
                                  \<and> strip (cs ! nat (idx + i)) \<noteq> []} \<subseteq> ?W"
    using assms by auto
  have "set (snd st1) \<subseteq> set (snd (([], mc) :: int list \<times> emitted)) \<union>
          {(idx + i, cs ! nat (idx + i)) | i. i \<in> set [-3, -2, -1] \<and> 0 \<le> idx + i
                                  \<and> strip (cs ! nat (idx + i)) \<noteq> []}"
    unfolding st1_def by (rule scan_before_fold)
  with b have 1: "set (snd st1) \<subseteq> set mc \<union> ?W"
    by (simp only: snd_conv) blast
  have "(idx, cs ! nat idx) \<in> ?W"
    using assms by simp
  with 1 have 2: "set (snd st2) \<subseteq> set mc \<union> ?W"
    unfolding st2_def by auto
  have "set (window cs idx mc) \<subseteq> set (snd st2) \<union>
          {(idx + i, cs ! nat (idx + i)) | i. i \<in> set [1, 2, 3] \<and> idx + i < int (length cs)
                                  \<and> strip (cs ! nat (idx + i)) \<noteq> []}"
    unfolding w by (rule scan_after_fold)
  with a 2 show ?thesis
    by blast
qed

lemma keyword_fold_subset:
  assumes "n < length cs"
  shows "set (fold (\<lambda>keyword mc. if sublist keyword ln then window cs (int n) mc else mc) kws mc)
           \<subseteq> set mc \<union> (if \<exists>kw \<in> set kws. sublist kw ln
                         then {(j, cs ! nat j) | j. 0 \<le> j \<and> j < int (length cs) \<and> \<bar>j - int n\<bar> \<le> 3
                                 \<and> (j \<noteq> int n \<longrightarrow> strip (cs ! nat j) \<noteq> [])}
                         else {})"
proof (induction kws arbitrary: mc)
  case Nil
  then show ?case by simp
next
  case (Cons kw kws)
  show ?case
  proof (cases "sublist kw ln")
    case True
    have "set (window cs (int n) mc) \<subseteq> set mc \<union> {(j, cs ! nat j) | j. 0 \<le> j \<and> j < int (length cs) \<and> \<bar>j - int n\<bar> \<le> 3
                                 \<and> (j \<noteq> int n \<longrightarrow> strip (cs ! nat j) \<noteq> [])}"
      using assms by (intro window_subset) simp_all
    with Cons.IH [of "window cs (int n) mc"] True show ?thesis
      by (auto split: if_splits)
  next
    case False
    with Cons.IH [of mc] show ?thesis
      by (auto split: if_splits)
  qed
qed

lemma line_fold_invariant:
  assumes "\<forall>(n, ln) \<in> set ps. n < length cs \<and> ln = cs ! n"
    and "\<forall>p \<in> set mc. P p"
    and "\<And>t j. t < length cs \<Longrightarrow> \<exists>kw \<in> set kws. sublist kw (cs ! t) \<Longrightarrow> 0 \<le> j \<Longrightarrow> j < int (length cs)
           \<Longrightarrow> \<bar>j - int t\<bar> \<le> 3 \<Longrightarrow> (j \<noteq> int t \<longrightarrow> strip (cs ! nat j) \<noteq> []) \<Longrightarrow> P (j, cs ! nat j)"
  shows "\<forall>p \<in> set (fold (\<lambda>(idx, ln) mc.
             fold (\<lambda>keyword mc. if sublist keyword ln then window cs (int idx) mc else mc) kws mc)
          ps mc). P p"
  using assms(1,2)
proof (induction ps arbitrary: mc)
  case Nil
  then show ?case by simp
next
  case (Cons a ps)
  obtain n ln where a: "a = (n, ln)" by (cases a)
  from Cons.prems(1) a have n: "n < length cs" and ln: "ln = cs ! n" by auto
  let ?mc' = "fold (\<lambda>keyword mc. if sublist keyword ln then window cs (int n) mc else mc) kws mc"
  have "\<forall>p \<in> set ?mc'. P p"
  proof
    fix p assume "p \<in> set ?mc'"
    with keyword_fold_subset [OF n, of ln kws mc]
    consider "p \<in> set mc"
      | j where "\<exists>kw \<in> set kws. sublist kw ln" "p = (j, cs ! nat j)" "0 \<le> j" "j < int (length cs)"
          "\<bar>j - int n\<bar> \<le> 3" "j \<noteq> int n \<longrightarrow> strip (cs ! nat j) \<noteq> []"
      by (auto split: if_splits)
    then show "P p"
    proof cases
      case 1
      with Cons.prems(2) show ?thesis by simp
    next
      case 2
      with assms(3) [of n j] n ln show ?thesis by simp
    qed
  qed
  moreover from Cons.prems(1) have "\<forall>(n, ln) \<in> set ps. n < length cs \<and> ln = cs ! n" by simp
  ultimately have "\<forall>p \<in> set (fold (\<lambda>(idx, ln) mc.
             fold (\<lambda>keyword mc. if sublist keyword ln then window cs (int idx) mc else mc) kws mc)
          ps ?mc'). P p"
    by (rule Cons.IH [rotated])
  then show ?case by (simp add: a)
qed

text \<open>
  Claim C2, as amended. In normal-match mode a context line that is blank after trimming
  is not emitted, and it still takes one of the three positions on its side of the trigger:
  every emitted line is a line of the text read at its own index, lies at most 3 physical
  lines from a line containing a keyword, and is not blank unless it is that line itself.
\<close>

theorem normal_match_window_bound:
  "(i, l) \<in> set (normal_match_emitted kws cs) \<Longrightarrow>
     0 \<le> i \<and> i < int (length cs) \<and> l = cs ! nat i \<and>
     (\<exists>t < length cs. (\<exists>kw \<in> set kws. sublist kw (cs ! t)) \<and> \<bar>i - int t\<bar> \<le> 3
                     \<and> (i \<noteq> int t \<longrightarrow> strip l \<noteq> []))"
proof -
  assume m: "(i, l) \<in> set (normal_match_emitted kws cs)"
  let ?P = "\<lambda>p. 0 \<le> fst p \<and> fst p < int (length cs) \<and> snd p = cs ! nat (fst p) \<and>
     (\<exists>t < length cs. (\<exists>kw \<in> set kws. sublist kw (cs ! t)) \<and> \<bar>fst p - int t\<bar> \<le> 3
                     \<and> (fst p \<noteq> int t \<longrightarrow> strip (snd p) \<noteq> []))"
  have "\<forall>p \<in> set (normal_match_emitted kws cs). ?P p"
    unfolding normal_match_emitted_def
  proof (rule line_fold_invariant)
    show "\<forall>(n, ln) \<in> set (enumerate 0 cs). n < length cs \<and> ln = cs ! n"
      by (auto simp: in_set_enumerate_eq)
  next
    show "\<forall>p \<in> set []. ?P p" by simp
  next
    fix t j
    assume "t < length cs" "\<exists>kw \<in> set kws. sublist kw (cs ! t)" "0 \<le> j" "j < int (length cs)"
      "\<bar>j - int t\<bar> \<le> 3" "j \<noteq> int t \<longrightarrow> strip (cs ! nat j) \<noteq> []"
    then show "?P (j, cs ! nat j)" by auto
  qed
  with m show ?thesis by fastforce
qed

lemmas normal_match_eval =
  normal_match_emitted_def enumerate_eq_zip window_def scan_before_def scan_after_def Let_def
  strip_def isspace_def sublist_code upt_rec

theorem normal_match_window_bound_witness:
  "(3, ''p1'') \<in> set (normal_match_emitted [''kw'']
                        [''p4'', [], [], ''p1'', ''kw'', ''n1'', [], [], ''n4''])
   \<and> (\<exists>t < length [''p4'', [], [], ''p1'', ''kw'', ''n1'', [], [], ''n4''].
         (\<exists>kw \<in> set [''kw'']. sublist kw ([''p4'', [], [], ''p1'', ''kw'', ''n1'', [], [], ''n4''] ! t))
         \<and> \<bar>3 - int t\<bar> \<le> 3 \<and> (3 \<noteq> int t \<longrightarrow> strip ''p1'' \<noteq> []))"
proof -
  have m: "(3, ''p1'') \<in> set (normal_match_emitted [''kw'']
                        [''p4'', [], [], ''p1'', ''kw'', ''n1'', [], [], ''n4''])"
    by (simp add: normal_match_eval)
  from normal_match_window_bound [OF m] m show ?thesis
    by blast
qed

text \<open>
  Claim C2 as stated fails: with blank lines on both sides of the trigger, and one
  non-blank line only within three lines on each side, the non-blank lines four lines
  away (\<open>p4\<close> and \<open>n4\<close>) are not emitted.
\<close>

theorem window_blank_counterexample:
  "codes example_externals \<lparr>keyword = ''kw'', extension = None, mode = ''normal-match''\<rparr>
         ''p4\<newline>\<newline>\<newline>p1\<newline>kw\<newline>n1\<newline>\<newline>\<newline>n4''
     = Inr (''p4\<newline>\<newline>\<newline>p1\<newline>kw\<newline>n1\<newline>\<newline>\<newline>n4'', [''p1'', ''kw'', ''n1''], [])
   \<and> normal_match_emitted [''kw'']
         (splitlines ''p4\<newline>\<newline>\<newline>p1\<newline>kw\<newline>n1\<newline>\<newline>\<newline>n4'')
     = [(3, ''p1''), (4, ''kw''), (5, ''n1'')]"
proof -
  have r: "replace ''p4\<newline>\<newline>\<newline>p1\<newline>kw\<newline>n1\<newline>\<newline>\<newline>n4'' ''<img'' []
             = ''p4\<newline>\<newline>\<newline>p1\<newline>kw\<newline>n1\<newline>\<newline>\<newline>n4''"
    by (simp add: replace_def)
  have s: "splitlines ''p4\<newline>\<newline>\<newline>p1\<newline>kw\<newline>n1\<newline>\<newline>\<newline>n4''
             = [''p4'', [], [], ''p1'', ''kw'', ''n1'', [], [], ''n4'']"
    by (simp add: splitlines_def is_linebreak_def)
  have k: "rule_keywords \<lparr>keyword = ''kw'', extension = None, mode = ''normal-match''\<rparr> = [''kw'']"
    by (simp add: rule_keywords_def)
  have e: "normal_match_emitted [''kw''] [''p4'', [], [], ''p1'', ''kw'', ''n1'', [], [], ''n4'']
             = [(3, ''p1''), (4, ''kw''), (5, ''n1'')]"
    by (simp add: normal_match_eval)
  show ?thesis
    by (simp add: codes_def Let_def normal_match_def r s k e)
qed

text \<open>
  Claim C1. Each line index is to appear at most once among the fragments of one hit.
  The list \<open>idxs\<close> starts empty for every trigger, so the test \<open>i_idx in idxs\<close> never
  holds: with two adjacent trigger lines the indices 0 and 1 are both emitted twice.
\<close>

theorem normal_match_repeats_index:
  "codes ext \<lparr>keyword = ''a'', extension = None, mode = ''normal-match''\<rparr> ''a1\<newline>a2''
     = Inr (''a1\<newline>a2'', [''a1'', ''a2'', ''a1'', ''a2''], [])
   \<and> map fst (normal_match_emitted [''a''] (splitlines ''a1\<newline>a2'')) = [0, 1, 0, 1]"
proof -
  have r: "replace ''a1\<newline>a2'' ''<img'' [] = ''a1\<newline>a2''"
    by (simp add: replace_def)
  have s: "splitlines ''a1\<newline>a2'' = [''a1'', ''a2'']"
    by (simp add: splitlines_def is_linebreak_def)
  have k: "rule_keywords \<lparr>keyword = ''a'', extension = None, mode = ''normal-match''\<rparr> = [''a'']"
    by (simp add: rule_keywords_def)
  have e: "normal_match_emitted [''a''] [''a1'', ''a2'']
             = [(0, ''a1''), (1, ''a2''), (0, ''a1''), (1, ''a2'')]"
    by (simp add: normal_match_eval)
  show ?thesis
    by (simp add: codes_def Let_def normal_match_def r s k e)
qed

section \<open>Properties of the per-hit pipeline\<close>

lemma codes_code: "codes ext r c = Inr (c', m, q) \<Longrightarrow> c' = replace c ''<img'' []"
  by (auto simp: codes_def Let_def split: if_splits sum.splits)

lemma keys_update: "fst ` set (AList.update k v al) = insert k (fst ` set al)"
  by (induction al) auto

lemma key_update_mem: "(a, b) \<in> set (AList.update k v al) \<Longrightarrow> a = k \<or> a \<in> fst ` set al"
  using keys_update [of k v al] by (metis fst_conv image_eqI insertE)

lemma read_sha_simps:
  "sha (read_sha content e) = (case hit_sha content of Some s \<Rightarrow> s | None \<Rightarrow> [])"
  "hash_list (read_sha content e) = hash_list e"
  "rule_object (read_sha content e) = rule_object e"
  "token (read_sha content e) = token e"
  "result (read_sha content e) = result e"
  "exclude_result (read_sha content e) = exclude_result e"
  "processed_count (read_sha content e) = processed_count e"
  "next_count (read_sha content e) = next_count e"
  "code (read_sha content e) = code e"
  "events (read_sha content e) = events e @ (case hit_sha content of Some s \<Rightarrow> [] | None \<Rightarrow> [Log_sha_exception])"
  by (simp_all add: read_sha_def emit_def Let_def split: option.split)

lemma emit_simps:
  "sha (emit evs e) = sha e"
  "hash_list (emit evs e) = hash_list e"
  "rule_object (emit evs e) = rule_object e"
  "token (emit evs e) = token e"
  "result (emit evs e) = result e"
  "exclude_result (emit evs e) = exclude_result e"
  "processed_count (emit evs e) = processed_count e"
  "next_count (emit evs e) = next_count e"
  "code (emit evs e) = code e"
  "url (emit evs e) = url e"
  "path (emit evs e) = path e"
  "full_name (emit evs e) = full_name e"
  "events (emit evs e) = events e @ evs"
  by (simp_all add: emit_def)

lemma record_match_simps:
  "hash_list (record_match ext ci content mc e) = hash_list e"
  "rule_object (record_match ext ci content mc e) = rule_object e"
  "token (record_match ext ci content mc e) = token e"
  "processed_count (record_match ext ci content mc e) = processed_count e"
  "next_count (record_match ext ci content mc e) = next_count e + 1"
  "code (record_match ext ci content mc e) = code e"
  "sha (record_match ext ci content mc e) = sha e"
  by (simp_all add: record_match_def emit_def Let_def)

lemma record_match_maps:
  "\<exists>res. r_code res = code e \<and> r_match_codes res = mc \<and> r_hash res = sha e
     \<and> ((result (record_match ext ci content mc e) = AList.update ci res (result e)
           \<and> exclude_result (record_match ext ci content mc e) = exclude_result e)
        \<or> (exclude_result (record_match ext ci content mc e) = AList.update ci res (exclude_result e)
           \<and> result (record_match ext ci content mc e) = result e))"
  by (rule exI [of _ "\<lparr>r_url = url e, r_match_codes = mc, r_hash = sha e, r_code = code e,
                 r_repository = full_name e, r_path = path e\<rparr>"])
     (simp add: record_match_def emit_def Let_def)

lemma record_match_events:
  "\<exists>evs. events (record_match ext ci content mc e) = events e @ evs
     \<and> (\<forall>ev \<in> set evs. \<forall>m. ev \<noteq> Process_report m)"
  by (simp add: record_match_def emit_def Let_def)

lemma process_hit_abort:
  "next_count e = 0 \<Longrightarrow> processed_count e > 3 \<Longrightarrow>
   process_hit ext page index content e = Inr (False, emit [Log_skip_rule (page * per_page + index)] e)"
  by (simp add: process_hit_def Let_def)

lemma process_hit_seen:
  "\<not> (next_count e = 0 \<and> processed_count e > 3) \<Longrightarrow> seen content e \<Longrightarrow>
   process_hit ext page index content e
     = Inr (True, (emit [Log_processed (page * per_page + index)] (read_sha content e))
                    \<lparr>processed_count := processed_count e + 1\<rparr>)"
  by (simp add: process_hit_def Let_def seen_def read_sha_simps)

lemma process_hit_result:
  assumes "process_hit ext page index content e = Inr (b, e')"
  shows "(\<not> b \<and> next_count e = 0 \<and> processed_count e > 3
        \<and> e' = emit [Log_skip_rule (page * per_page + index)] e)
   \<or> (b \<and> seen content e \<and> processed_count e' = processed_count e + 1
        \<and> next_count e' = next_count e \<and> result e' = result e
        \<and> exclude_result e' = exclude_result e)
   \<or> (b \<and> \<not> seen content e \<and> processed_count e' = processed_count e
        \<and> next_count e' = next_count e \<and> result e' = result e
        \<and> exclude_result e' = exclude_result e)
   \<or> (b \<and> \<not> seen content e \<and> processed_count e' = processed_count e
        \<and> next_count e' = next_count e + 1
        \<and> (\<exists>text res. decoded_content content = Some text
              \<and> r_code res = replace text ''<img'' [] \<and> r_match_codes res \<noteq> []
              \<and> ((result e' = AList.update (page * per_page + index) res (result e)
                     \<and> exclude_result e' = exclude_result e)
                  \<or> (exclude_result e' = AList.update (page * per_page + index) res (exclude_result e)
                     \<and> result e' = result e))))"
proof (cases "next_count e = 0 \<and> processed_count e > 3")
  case True
  with assms show ?thesis by (simp add: process_hit_abort)
next
  case na: False
  show ?thesis
  proof (cases "seen content e")
    case True
    with assms na show ?thesis
      by (auto simp: process_hit_seen emit_simps read_sha_simps)
  next
    case ns: False
    let ?e3 = "(read_sha content e)\<lparr>path := hit_path content,
                            full_name := strip (repository_full_name content)\<rparr>"
    have e3: "result ?e3 = result e" "exclude_result ?e3 = exclude_result e"
      "processed_count ?e3 = processed_count e" "next_count ?e3 = next_count e"
      by (simp_all add: read_sha_simps)
    from ns have ns': "sha (read_sha content e) \<notin> set (hash_list (read_sha content e))"
      by (simp add: seen_def read_sha_simps)
    show ?thesis
    proof (cases "exclude_repository ext ?e3")
      case True
      with assms na ns' have "b" "e' = emit [Log_excluded (page * per_page + index)] ?e3"
        by (auto simp: process_hit_def Let_def)
      with ns e3 show ?thesis by (simp add: emit_simps)
    next
      case ne: False
      show ?thesis
      proof (cases "decoded_content content")
        case None
        with assms na ns' ne have "b" "e' = emit [Log_content_exception] ?e3"
          by (auto simp: process_hit_def Let_def)
        with ns e3 show ?thesis by (simp add: emit_simps)
      next
        case (Some tx)
        with assms na ns' ne obtain c' mc rq
          where c: "codes ext (rule_object ?e3) tx = Inr (c', mc, rq)"
          by (auto simp: process_hit_def Let_def split: sum.splits)
        let ?e4 = "emit (map Http_get rq) (?e3\<lparr>code := c'\<rparr>)"
        have e4: "result ?e4 = result e" "exclude_result ?e4 = exclude_result e"
          "processed_count ?e4 = processed_count e" "next_count ?e4 = next_count e"
          "code ?e4 = replace tx ''<img'' []"
          using codes_code [OF c] by (simp_all add: read_sha_simps emit_simps)
        show ?thesis
        proof (cases "mc = []")
          case True
          with assms na ns' ne Some c
          have "b" "e' = emit [Log_not_matched (page * per_page + index)] ?e4"
            by (auto simp: process_hit_def Let_def)
          with ns e4 show ?thesis by (simp add: emit_simps)
        next
          case False
          with assms na ns' ne Some c
          have b: "b" and e': "e' = record_match ext (page * per_page + index) content mc ?e4"
            by (auto simp: process_hit_def Let_def)
          from record_match_maps [of ?e4 mc ext "page * per_page + index" content]
          obtain res where "r_code res = code ?e4" "r_match_codes res = mc"
            "(result e' = AList.update (page * per_page + index) res (result ?e4)
                \<and> exclude_result e' = exclude_result ?e4)
             \<or> (exclude_result e' = AList.update (page * per_page + index) res (exclude_result ?e4)
                \<and> result e' = result ?e4)"
            unfolding e' by blast
          with False e4 Some have "\<exists>text res. decoded_content content = Some text
              \<and> r_code res = replace text ''<img'' [] \<and> r_match_codes res \<noteq> []
              \<and> ((result e' = AList.update (page * per_page + index) res (result e)
                     \<and> exclude_result e' = exclude_result e)
                  \<or> (exclude_result e' = AList.update (page * per_page + index) res (exclude_result e)
                     \<and> result e' = result e))"
            by (metis (no_types, lifting))
          moreover have "processed_count e' = processed_count e" "next_count e' = next_count e + 1"
            using e4 by (simp_all add: e' record_match_simps)
          ultimately show ?thesis using b ns by blast
        qed
      qed
    qed
  qed
qed


lemma process_hit_fixed:
  "process_hit ext page index content e = Inr (b, e') \<Longrightarrow> hash_list e' = hash_list e"
  by (auto simp: process_hit_def Let_def emit_simps read_sha_simps record_match_simps
           split: if_splits option.splits sum.splits prod.splits)

lemma process_hit_events:
  assumes "process_hit ext page index content e = Inr (b, e')"
  shows "\<exists>evs. events e' = events e @ evs \<and> (\<forall>ev \<in> set evs. \<forall>m. ev \<noteq> Process_report m)"
proof -
  have r: "\<exists>evs. events (record_match ext ci content mc (emit (map Http_get rq) e3)) = events e3 @ evs
            \<and> (\<forall>ev \<in> set evs. \<forall>m. ev \<noteq> Process_report m)" for ci mc rq e3
  proof -
    from record_match_events [of ext ci content mc "emit (map Http_get rq) e3"]
    obtain evs where "events (record_match ext ci content mc (emit (map Http_get rq) e3))
                        = events e3 @ (map Http_get rq @ evs)"
      and "\<forall>ev \<in> set evs. \<forall>m. ev \<noteq> Process_report m"
      by (auto simp: emit_simps)
    moreover from this have "\<forall>ev \<in> set (map Http_get rq @ evs). \<forall>m. ev \<noteq> Process_report m"
      by auto
    ultimately show ?thesis by blast
  qed
  have s: "\<exists>evs. events (read_sha content e) @ more = events e @ evs
            \<and> (\<forall>ev \<in> set evs. \<forall>m. ev \<noteq> Process_report m)"
    if "\<forall>ev \<in> set more. \<forall>m. ev \<noteq> Process_report m" for more
    using that by (auto simp: read_sha_simps split: option.splits)
  show ?thesis
  proof (cases "next_count e = 0 \<and> processed_count e > 3")
    case True
    with assms show ?thesis by (auto simp: process_hit_abort emit_simps)
  next
    case na: False
    show ?thesis
    proof (cases "seen content e")
      case True
      with assms na s [of "[Log_processed (page * per_page + index)]"] show ?thesis
        by (auto simp: process_hit_seen emit_simps)
    next
      case False
      then have ns': "sha (read_sha content e) \<notin> set (hash_list (read_sha content e))"
        by (simp add: seen_def read_sha_simps)
      let ?e3 = "(read_sha content e)\<lparr>path := hit_path content,
                            full_name := strip (repository_full_name content)\<rparr>"
      have e3: "events ?e3 = events (read_sha content e)" by simp
      from assms na ns' consider
          "e' = emit [Log_excluded (page * per_page + index)] ?e3"
        | "e' = emit [Log_content_exception] ?e3"
        | c' rq where "e' = emit [Log_not_matched (page * per_page + index)]
                              (emit (map Http_get rq) (?e3\<lparr>code := c'\<rparr>))"
        | c' mc rq where "e' = record_match ext (page * per_page + index) content mc
                              (emit (map Http_get rq) (?e3\<lparr>code := c'\<rparr>))"
        by (auto simp: process_hit_def Let_def split: if_splits option.splits sum.splits)
      then show ?thesis
      proof cases
        case 1
        with s [of "[Log_excluded (page * per_page + index)]"] show ?thesis
          by (simp add: emit_simps)
      next
        case 2
        with s [of "[Log_content_exception]"] show ?thesis
          by (simp add: emit_simps)
      next
        case 3
        with s [of "map Http_get rq @ [Log_not_matched (page * per_page + index)]"] show ?thesis
          by (auto simp: emit_simps)
      next
        case 4
        from r [of "page * per_page + index" mc rq "?e3\<lparr>code := c'\<rparr>"]
        obtain evs where "events e' = events (read_sha content e) @ evs"
          "\<forall>ev \<in> set evs. \<forall>m. ev \<noteq> Process_report m"
          unfolding 4 by auto
        with s [of evs] show ?thesis by auto
      qed
    qed
  qed
qed

lemma process_items_fixed:
  "process_items ext page ps e = Inr (b, e') \<Longrightarrow> hash_list e' = hash_list e"
proof (induction ps arbitrary: e)
  case Nil
  then show ?case by simp
next
  case (Cons p ps)
  obtain i h where p: "p = (i, h)" by (cases p)
  from Cons.prems obtain b1 e1 where 1: "process_hit ext page i h e = Inr (b1, e1)"
    and 2: "if b1 then process_items ext page ps e1 = Inr (b, e') else (b, e') = (False, e1)"
    by (auto simp: p split: sum.splits prod.splits if_splits)
  from process_hit_fixed [OF 1] Cons.IH [of e1] 2 show ?case
    by (auto split: if_splits)
qed

lemma process_items_counts:
  "process_items ext page ps e = Inr (b, e') \<Longrightarrow>
   next_count e \<le> next_count e'
   \<and> (next_count e' = next_count e \<longrightarrow> result e' = result e \<and> exclude_result e' = exclude_result e)
   \<and> (\<not> b \<longrightarrow> next_count e' = 0)"
proof (induction ps arbitrary: e)
  case Nil
  then show ?case by simp
next
  case (Cons p ps)
  obtain i h where p: "p = (i, h)" by (cases p)
  from Cons.prems obtain b1 e1 where 1: "process_hit ext page i h e = Inr (b1, e1)"
    and 2: "if b1 then process_items ext page ps e1 = Inr (b, e') else (b, e') = (False, e1)"
    by (auto simp: p split: sum.splits prod.splits if_splits)
  have h: "next_count e \<le> next_count e1"
    "next_count e1 = next_count e \<longrightarrow> result e1 = result e \<and> exclude_result e1 = exclude_result e"
    "\<not> b1 \<longrightarrow> next_count e1 = 0"
    using process_hit_result [OF 1] by (auto simp: emit_simps)
  show ?case
  proof (cases b1)
    case True
    with 2 have "process_items ext page ps e1 = Inr (b, e')" by simp
    from Cons.IH [OF this] h show ?thesis by auto
  next
    case False
    with 2 h show ?thesis by auto
  qed
qed

lemma process_items_events:
  "process_items ext page ps e = Inr (b, e') \<Longrightarrow>
   \<exists>evs. events e' = events e @ evs \<and> (\<forall>ev \<in> set evs. \<forall>m. ev \<noteq> Process_report m)"
proof (induction ps arbitrary: e)
  case Nil
  then show ?case by simp
next
  case (Cons p ps)
  obtain i h where p: "p = (i, h)" by (cases p)
  from Cons.prems obtain b1 e1 where 1: "process_hit ext page i h e = Inr (b1, e1)"
    and 2: "if b1 then process_items ext page ps e1 = Inr (b, e') else (b, e') = (False, e1)"
    by (auto simp: p split: sum.splits prod.splits if_splits)
  from process_hit_events [OF 1] obtain evs1 where
    e1: "events e1 = events e @ evs1" "\<forall>ev \<in> set evs1. \<forall>m. ev \<noteq> Process_report m"
    by blast
  show ?case
  proof (cases b1)
    case True
    with 2 have "process_items ext page ps e1 = Inr (b, e')" by simp
    from Cons.IH [OF this] obtain evs2 where
      "events e' = events e1 @ evs2" "\<forall>ev \<in> set evs2. \<forall>m. ev \<noteq> Process_report m"
      by blast
    with e1 have "events e' = events e @ (evs1 @ evs2)"
      "\<forall>ev \<in> set (evs1 @ evs2). \<forall>m. ev \<noteq> Process_report m"
      by auto
    then show ?thesis by blast
  next
    case False
    with 2 e1 show ?thesis by auto
  qed
qed

lemma process_hit_keys:
  assumes "process_hit ext page i h e = Inr (b1, e1)"
    and "k \<in> fst ` set (result e1) \<union> fst ` set (exclude_result e1)"
  shows "k \<in> fst ` set (result e) \<union> fst ` set (exclude_result e)
         \<or> (\<not> seen h e \<and> k = page * per_page + i)"
proof -
  from process_hit_result [OF assms(1)]
  consider "result e1 = result e" "exclude_result e1 = exclude_result e"
    | res where "\<not> seen h e" "result e1 = AList.update (page * per_page + i) res (result e)"
        "exclude_result e1 = exclude_result e"
    | res where "\<not> seen h e" "exclude_result e1 = AList.update (page * per_page + i) res (exclude_result e)"
        "result e1 = result e"
    by (auto simp: emit_simps)
  then show ?thesis
  proof cases
    case 1
    with assms(2) show ?thesis by simp
  next
    case 2
    with assms(2) show ?thesis by (simp add: keys_update) blast
  next
    case 3
    with assms(2) show ?thesis by (simp add: keys_update) blast
  qed
qed

lemma process_items_keys:
  "process_items ext page ps e = Inr (b, e') \<Longrightarrow>
   k \<in> fst ` set (result e') \<union> fst ` set (exclude_result e') \<Longrightarrow>
   k \<in> fst ` set (result e) \<union> fst ` set (exclude_result e)
   \<or> (\<exists>i h. (i, h) \<in> set ps \<and> \<not> seen h e \<and> k = page * per_page + i)"
proof (induction ps arbitrary: e)
  case Nil
  then show ?case by simp
next
  case (Cons p ps)
  obtain i h where p: "p = (i, h)" by (cases p)
  from Cons.prems(1) obtain b1 e1 where 1: "process_hit ext page i h e = Inr (b1, e1)"
    and 2: "if b1 then process_items ext page ps e1 = Inr (b, e') else (b, e') = (False, e1)"
    by (auto simp: p split: sum.splits prod.splits if_splits)
  have s: "seen h' e1 = seen h' e" for h'
    using process_hit_fixed [OF 1] by (simp add: seen_def)
  have "k \<in> fst ` set (result e1) \<union> fst ` set (exclude_result e1)
        \<or> (\<exists>i h. (i, h) \<in> set ps \<and> \<not> seen h e \<and> k = page * per_page + i)"
  proof (cases b1)
    case True
    with 2 have "process_items ext page ps e1 = Inr (b, e')" by simp
    from Cons.IH [OF this Cons.prems(2)] show ?thesis
      unfolding s .
  next
    case False
    with 2 have "e' = e1" by simp
    with Cons.prems(2) show ?thesis by simp
  qed
  then show ?case
  proof
    assume "k \<in> fst ` set (result e1) \<union> fst ` set (exclude_result e1)"
    from process_hit_keys [OF 1 this] show ?thesis
      unfolding p by auto
  next
    assume "\<exists>i h. (i, h) \<in> set ps \<and> \<not> seen h e \<and> k = page * per_page + i"
    then show ?thesis by auto
  qed
qed

lemma replace_nonempty_absent: "\<not> sublist old s \<Longrightarrow> replace_nonempty old new s = s"
proof (induction s)
  case Nil
  then show ?case by simp
next
  case (Cons c cs)
  then have "\<not> prefix old (c # cs)" "\<not> sublist old cs"
    by (auto simp: sublist_Cons_right)
  with Cons.IH show ?case by simp
qed

lemma replace_absent: "old \<noteq> [] \<Longrightarrow> \<not> sublist old s \<Longrightarrow> replace s old new = s"
  by (simp add: replace_def replace_nonempty_absent)

lemma codes_example_img:
  "codes ext example_rule ''<img password'' = Inr ('' password'', ['' password''], [])"
proof -
  have r: "replace ''<img password'' ''<img'' [] = '' password''"
    by (simp add: replace_def)
  have s: "splitlines '' password'' = ['' password'']"
    by (simp add: splitlines_def is_linebreak_def)
  have k: "rule_keywords example_rule = [''password'']"
    by (simp add: rule_keywords_def example_rule_def)
  show ?thesis
    by (simp add: codes_def Let_def only_match_def r s k sublist_code) (simp add: example_rule_def)
qed

lemma codes_example_plain:
  "codes ext example_rule ''password=1'' = Inr (''password=1'', [''password=1''], [])"
proof -
  have r: "replace ''password=1'' ''<img'' [] = ''password=1''"
    by (simp add: replace_def)
  have s: "splitlines ''password=1'' = [''password=1'']"
    by (simp add: splitlines_def is_linebreak_def)
  have k: "rule_keywords example_rule = [''password'']"
    by (simp add: rule_keywords_def example_rule_def)
  show ?thesis
    by (simp add: codes_def Let_def only_match_def r s k sublist_code) (simp add: example_rule_def)
qed

lemmas engine_eval =
  process_hit_def Let_def read_sha_def emit_def record_match_def exclude_repository_def
  exclude_codes_def example_engine_def example_externals_def per_page_def
  codes_example_img codes_example_plain

lemma process_new_hit:
  "process_hit example_externals 0 0 new_hit example_engine
     = Inr (True, example_engine
              \<lparr>code := '' password'', full_name := ''o/r'', sha := ''s2'', url := ''u2'',
               path := ''b.py'',
               result := [(0, \<lparr>r_url = ''u2'', r_match_codes = ['' password''], r_hash = ''s2'',
                               r_code = '' password'', r_repository = ''o/r'', r_path = ''b.py''\<rparr>)],
               next_count := 1, events := [Clone ''g'' ''s2'', Log_complete 0]\<rparr>)"
  by (simp add: engine_eval new_hit_def strip_def isspace_def)

lemma process_plain_hit:
  "process_hit example_externals 0 0 seen_hit example_engine
     = Inr (True, example_engine
              \<lparr>code := ''password=1'', full_name := ''o/r'', sha := ''s1'', url := ''u1'',
               path := ''a.py'',
               result := [(0, \<lparr>r_url = ''u1'', r_match_codes = [''password=1''], r_hash = ''s1'',
                               r_code = ''password=1'', r_repository = ''o/r'', r_path = ''a.py''\<rparr>)],
               next_count := 1, events := [Clone ''g'' ''s1'', Log_complete 0]\<rparr>)"
  by (simp add: engine_eval seen_hit_def strip_def isspace_def)

text \<open>
  Claim C6 as stated fails: \<open>codes\<close> overwrites \<open>self.code\<close> with the text without
  \<open><img\<close> before the result is built, so for the content \<open><img password\<close> the field
  \<open>code\<close> of the result is \<open> password\<close>, not the text as retrieved.
\<close>

theorem result_code_counterexample:
  "decoded_content new_hit = Some ''<img password''
   \<and> map_sum id (\<lambda>(go_on, e'). map (\<lambda>(k, res). (k, r_code res)) (result e'))
        (process_hit example_externals 0 0 new_hit example_engine)
       = Inr [(0, '' password'')]"
  by (simp add: process_new_hit) (simp add: new_hit_def)

text \<open>
  Claim C6, as amended. For every hit that produces a result (the hit that raises
  \<open>next_count\<close>), the result stored under the position of the hit, in the confirmed or in
  the to-review dictionary, has as its field \<open>code\<close> the decoded text of the hit with every
  occurrence of \<open><img\<close> removed; it is the decoded text itself where that text does not
  contain \<open><img\<close>.
\<close>

theorem result_code_stripped:
  assumes "process_hit ext page index content e = Inr (go_on, e')"
    and "next_count e' = next_count e + 1"
  shows "\<exists>t res. decoded_content content = Some t
           \<and> (map_of (result e') (page * per_page + index) = Some res
              \<or> map_of (exclude_result e') (page * per_page + index) = Some res)
           \<and> r_code res = replace t ''<img'' []
           \<and> (\<not> sublist ''<img'' t \<longrightarrow> r_code res = t)"
proof -
  from process_hit_result [OF assms(1)] assms(2)
  obtain t res where t: "decoded_content content = Some t"
    and c: "r_code res = replace t ''<img'' []"
    and m: "result e' = AList.update (page * per_page + index) res (result e)
            \<or> exclude_result e' = AList.update (page * per_page + index) res (exclude_result e)"
    by (auto simp: emit_simps)
  from m have "map_of (result e') (page * per_page + index) = Some res
              \<or> map_of (exclude_result e') (page * per_page + index) = Some res"
    by (auto simp: update_conv')
  moreover from c have "\<not> sublist ''<img'' t \<longrightarrow> r_code res = t"
    by (simp add: replace_absent)
  ultimately show ?thesis using t c by blast
qed

theorem result_code_stripped_witness:
  "process_hit example_externals 0 0 seen_hit example_engine
     = Inr (True, example_engine
              \<lparr>code := ''password=1'', full_name := ''o/r'', sha := ''s1'', url := ''u1'',
               path := ''a.py'',
               result := [(0, \<lparr>r_url = ''u1'', r_match_codes = [''password=1''], r_hash = ''s1'',
                               r_code = ''password=1'', r_repository = ''o/r'', r_path = ''a.py''\<rparr>)],
               next_count := 1, events := [Clone ''g'' ''s1'', Log_complete 0]\<rparr>)
   \<and> (\<exists>t res. decoded_content seen_hit = Some t
         \<and> (map_of [(0, \<lparr>r_url = ''u1'', r_match_codes = [''password=1''], r_hash = ''s1'',
                               r_code = ''password=1'', r_repository = ''o/r'', r_path = ''a.py''\<rparr>)]
               (0 * per_page + 0) = Some res
            \<or> map_of [] (0 * per_page + 0) = Some res)
         \<and> r_code res = replace t ''<img'' []
         \<and> \<not> sublist ''<img'' t \<and> r_code res = t)"
proof -
  let ?e' = "example_engine
              \<lparr>code := ''password=1'', full_name := ''o/r'', sha := ''s1'', url := ''u1'',
               path := ''a.py'',
               result := [(0, \<lparr>r_url = ''u1'', r_match_codes = [''password=1''], r_hash = ''s1'',
                               r_code = ''password=1'', r_repository = ''o/r'', r_path = ''a.py''\<rparr>)],
               next_count := 1, events := [Clone ''g'' ''s1'', Log_complete 0]\<rparr>"
  have n: "next_count ?e' = next_count example_engine + 1"
    by (simp add: example_engine_def)
  from result_code_stripped [OF process_plain_hit n]
  obtain t res where t: "decoded_content seen_hit = Some t"
    and m: "map_of (result ?e') (0 * per_page + 0) = Some res
            \<or> map_of (exclude_result ?e') (0 * per_page + 0) = Some res"
    and c: "r_code res = replace t ''<img'' []"
    and i: "\<not> sublist ''<img'' t \<longrightarrow> r_code res = t"
    by blast
  from t have "t = ''password=1''"
    by (simp add: seen_hit_def)
  then have a: "\<not> sublist ''<img'' t"
    by (simp add: sublist_code)
  from m have "map_of [(0, \<lparr>r_url = ''u1'', r_match_codes = [''password=1''], r_hash = ''s1'',
                               r_code = ''password=1'', r_repository = ''o/r'', r_path = ''a.py''\<rparr>)]
               (0 * per_page + 0) = Some res
            \<or> map_of [] (0 * per_page + 0) = Some res"
    by (simp add: example_engine_def)
  with t c a i process_plain_hit show ?thesis
    by blast
qed







section \<open>Properties of the loop over the pages\<close>

lemma process_items_abort:
  "next_count e = 0 \<Longrightarrow> processed_count e > 3 \<Longrightarrow>
   process_items ext page ((i, h) # ps) e
     = Inr (False, emit [Log_skip_rule (page * per_page + i)] e)"
  by (simp add: process_hit_abort)

lemma process_pages_abort:
  "next_count e = 0 \<Longrightarrow> processed_count e > 3 \<Longrightarrow>
   process_pages ext (h # hs) page e = Inr (False, emit [Log_skip_rule (page * per_page)] e)"
  using process_hit_abort [of e ext page 0 h]
  by (simp add: process_pages_def enumerate_simps)

lemma search_pages_aborted:
  assumes "next_count e = 0" "processed_count e > 3"
  shows "\<exists>out e' evs. search_pages ext res pages e = Inr (out, e')
           \<and> next_count e' = 0 \<and> processed_count e' = processed_count e
           \<and> events e' = events e @ evs
           \<and> (\<forall>ev \<in> set evs. (\<exists>p. ev = Log_page_timeout p) \<or> ev = Process_report []
                                \<or> (\<exists>i. ev = Log_skip_rule i))"
  using assms
proof (induction pages arbitrary: e)
  case Nil
  then show ?case by simp
next
  case (Cons page pages)
  let ?e1 = "e\<lparr>result := [], exclude_result := []\<rparr>"
  have e1: "next_count ?e1 = 0" "processed_count ?e1 > 3" "processed_count ?e1 = processed_count e"
    "events ?e1 = events e" "result ?e1 = []"
    using Cons.prems by simp_all
  have step: "\<exists>out e' evs. search_pages ext res pages (emit [ev0] ?e1) = Inr (out, e')
           \<and> next_count e' = 0 \<and> processed_count e' = processed_count e
           \<and> events e' = events e @ evs
           \<and> (\<forall>ev \<in> set evs. (\<exists>p. ev = Log_page_timeout p) \<or> ev = Process_report []
                                \<or> (\<exists>i. ev = Log_skip_rule i))"
    if ok: "(\<exists>p. ev0 = Log_page_timeout p) \<or> ev0 = Process_report []" for ev0
  proof -
    have "next_count (emit [ev0] ?e1) = 0" "processed_count (emit [ev0] ?e1) > 3"
      using e1 by (simp_all add: emit_simps)
    from Cons.IH [OF this] obtain out e' evs where
      s: "search_pages ext res pages (emit [ev0] ?e1) = Inr (out, e')"
      and c: "next_count e' = 0" "processed_count e' = processed_count (emit [ev0] ?e1)"
      and ev: "events e' = events (emit [ev0] ?e1) @ evs"
      and a: "\<forall>ev \<in> set evs. (\<exists>p. ev = Log_page_timeout p) \<or> ev = Process_report []
                                \<or> (\<exists>i. ev = Log_skip_rule i)"
      by blast
    from ev have "events e' = events e @ (ev0 # evs)"
      by (simp add: emit_simps)
    moreover from a ok have "\<forall>ev \<in> set (ev0 # evs). (\<exists>p. ev = Log_page_timeout p)
                                \<or> ev = Process_report [] \<or> (\<exists>i. ev = Log_skip_rule i)"
      by auto
    moreover from c have "processed_count e' = processed_count e"
      by (simp add: emit_simps)
    ultimately show ?thesis using s c(1) by blast
  qed
  show ?case
  proof (cases "get_page res page")
    case (Inl f)
    show ?thesis
    proof (cases f)
      case Timeout
      with Inl step [of "Log_page_timeout page"] show ?thesis by simp
    next
      case (GithubException ex)
      with Inl e1 show ?thesis by (simp add: Let_def)
    qed
  next
    case (Inr hits)
    show ?thesis
    proof (cases hits)
      case Nil
      with Inr step [of "Process_report []"] show ?thesis
        by (simp add: process_pages_def)
    next
      case (Cons h hs)
      with Inr e1 have "search_pages ext res (page # pages) e
                          = Inr (Broke, emit [Log_skip_rule (page * per_page)] ?e1)"
        by (simp add: process_pages_abort)
      moreover have "events (emit [Log_skip_rule (page * per_page)] ?e1)
                       = events e @ [Log_skip_rule (page * per_page)]"
        by (simp add: emit_simps)
      ultimately show ?thesis using e1 by (auto simp: emit_simps)
    qed
  qed
qed

lemma four_seen_items:
  assumes "next_count e = 0" "processed_count e = 0"
    and "\<forall>h \<in> set [h1, h2, h3, h4]. seen h e"
  shows "\<exists>e'. process_items ext page ((i1, h1) # (i2, h2) # (i3, h3) # (i4, h4) # (i5, h5) # ps) e
                 = Inr (False, e')
           \<and> processed_count e' = 4 \<and> next_count e' = 0
           \<and> result e' = result e \<and> exclude_result e' = exclude_result e \<and> code e' = code e
           \<and> [ev \<leftarrow> events e'. ev \<noteq> Log_sha_exception]
               = [ev \<leftarrow> events e. ev \<noteq> Log_sha_exception]
                 @ [Log_processed (page * per_page + i1), Log_processed (page * per_page + i2),
                    Log_processed (page * per_page + i3), Log_processed (page * per_page + i4),
                    Log_skip_rule (page * per_page + i5)]"
proof -
  have step: "\<exists>x'. process_hit ext page i h x = Inr (True, x')
                \<and> next_count x' = 0 \<and> processed_count x' = processed_count x + 1
                \<and> result x' = result x \<and> exclude_result x' = exclude_result x \<and> code x' = code x
                \<and> hash_list x' = hash_list x
                \<and> [ev \<leftarrow> events x'. ev \<noteq> Log_sha_exception]
                    = [ev \<leftarrow> events x. ev \<noteq> Log_sha_exception] @ [Log_processed (page * per_page + i)]"
    if "next_count x = 0" "processed_count x \<le> 3" "seen h x" for i h x
    using that by (simp add: process_hit_seen emit_simps read_sha_simps split: option.splits)
  have sn: "seen h x' = seen h x" if "hash_list x' = hash_list x" for h x x'
    using that by (simp add: seen_def)
  from assms step [of e h1 i1] obtain x1 where 1: "process_hit ext page i1 h1 e = Inr (True, x1)"
    and c1: "next_count x1 = 0" "processed_count x1 = 1" "result x1 = result e"
      "exclude_result x1 = exclude_result e" "code x1 = code e" "hash_list x1 = hash_list e"
    and v1: "[ev \<leftarrow> events x1. ev \<noteq> Log_sha_exception]
               = [ev \<leftarrow> events e. ev \<noteq> Log_sha_exception] @ [Log_processed (page * per_page + i1)]"
    by auto
  from assms c1 step [of x1 h2 i2] sn [of x1 e] obtain x2
    where 2: "process_hit ext page i2 h2 x1 = Inr (True, x2)"
    and c2: "next_count x2 = 0" "processed_count x2 = 2" "result x2 = result e"
      "exclude_result x2 = exclude_result e" "code x2 = code e" "hash_list x2 = hash_list e"
    and v2: "[ev \<leftarrow> events x2. ev \<noteq> Log_sha_exception]
               = [ev \<leftarrow> events x1. ev \<noteq> Log_sha_exception] @ [Log_processed (page * per_page + i2)]"
    by auto
  from assms c2 step [of x2 h3 i3] sn [of x2 e] obtain x3
    where 3: "process_hit ext page i3 h3 x2 = Inr (True, x3)"
    and c3: "next_count x3 = 0" "processed_count x3 = 3" "result x3 = result e"
      "exclude_result x3 = exclude_result e" "code x3 = code e" "hash_list x3 = hash_list e"
    and v3: "[ev \<leftarrow> events x3. ev \<noteq> Log_sha_exception]
               = [ev \<leftarrow> events x2. ev \<noteq> Log_sha_exception] @ [Log_processed (page * per_page + i3)]"
    by auto
  from assms c3 step [of x3 h4 i4] sn [of x3 e] obtain x4
    where 4: "process_hit ext page i4 h4 x3 = Inr (True, x4)"
    and c4: "next_count x4 = 0" "processed_count x4 = 4" "result x4 = result e"
      "exclude_result x4 = exclude_result e" "code x4 = code e" "hash_list x4 = hash_list e"
    and v4: "[ev \<leftarrow> events x4. ev \<noteq> Log_sha_exception]
               = [ev \<leftarrow> events x3. ev \<noteq> Log_sha_exception] @ [Log_processed (page * per_page + i4)]"
    by auto
  have 5: "process_hit ext page i5 h5 x4 = Inr (False, emit [Log_skip_rule (page * per_page + i5)] x4)"
    using c4 by (intro process_hit_abort) simp_all
  have p: "process_items ext page ((i1, h1) # (i2, h2) # (i3, h3) # (i4, h4) # (i5, h5) # ps) e
             = Inr (False, emit [Log_skip_rule (page * per_page + i5)] x4)"
    by (simp add: 1 2 3 4 5)
  show ?thesis
    unfolding p using c4 v1 v2 v3 v4 by (simp add: emit_simps)
qed

lemma four_seen_then_abort:
  assumes "next_count e = 0" "processed_count e = 0"
    and "\<forall>h \<in> set [h1, h2, h3, h4]. seen h e"
  shows "\<exists>e'. process_pages ext (h1 # h2 # h3 # h4 # h5 # rest) page e = Inr (False, e')
           \<and> processed_count e' = 4 \<and> next_count e' = 0
           \<and> result e' = result e \<and> exclude_result e' = exclude_result e \<and> code e' = code e
           \<and> [ev \<leftarrow> events e'. ev \<noteq> Log_sha_exception]
               = [ev \<leftarrow> events e. ev \<noteq> Log_sha_exception]
                 @ [Log_processed (page * per_page), Log_processed (page * per_page + 1),
                    Log_processed (page * per_page + 2), Log_processed (page * per_page + 3),
                    Log_skip_rule (page * per_page + 4)]"
  using four_seen_items [OF assms, of ext page 0 1 2 3 4 h5 "enumerate 5 rest"]
  by (simp add: process_pages_def enumerate_simps eval_nat_numeral)

text \<open>
  Claim C3 as stated fails in its first part: the test is the first statement of the loop
  body, and the counters are those of the whole rule. Here page 0 has 50 items, 46 whose
  content cannot be read (they are not counted) and then 4 already seen; the page ends with
  \<open>processed_count = 4\<close> and is reported, and on page 1 the rule is abandoned at position 50,
  before any item of that page has been processed.
\<close>

theorem early_abort_counterexample:
  "map_sum id (\<lambda>(r, e'). (fst r, snd (snd r), [ev \<leftarrow> events e'. ev \<noteq> Log_content_exception]))
     (search example_externals
        (example_github 100 (\<lambda>p. if p = 0 then Inr (replicate 46 unreadable_hit @ replicate 4 seen_hit)
                                  else Inr [new_hit]))
        [''s1''] example_rule example_engine)
   = Inr (True, Count 0,
          [Log_processed 46, Log_processed 47, Log_processed 48, Log_processed 49,
           Process_report [], Log_skip_rule 50])"
  by code_simp

text \<open>
  Claim C3, as amended. The early-abort test is made before every hit, the first hit of a
  page included. Whenever \<open>next_count = 0\<close> and \<open>processed_count > 3\<close> hold, no further hit
  of the rule is evaluated: the loop over the pages ends with both counters unchanged and
  adds nothing but page timeouts, reports of an empty dictionary and the line that the rule
  is skipped; a page with a hit returns \<open>False\<close> at its first position. In particular,
  on a page whose first 4 hits are already seen, met with both counters at 0, the 5th hit is
  never evaluated: \<open>process_pages\<close> returns \<open>False\<close> after four skips, whatever the 5th
  hit and the rest of the page are.
\<close>

theorem early_abort:
  "(next_count e = 0 \<and> processed_count e > 3 \<longrightarrow>
      (\<exists>out e' evs. search_pages ext res pages e = Inr (out, e')
           \<and> next_count e' = 0 \<and> processed_count e' = processed_count e
           \<and> events e' = events e @ evs
           \<and> (\<forall>ev \<in> set evs. (\<exists>p. ev = Log_page_timeout p) \<or> ev = Process_report []
                                \<or> (\<exists>i. ev = Log_skip_rule i))))
   \<and> (next_count e = 0 \<and> processed_count e > 3 \<longrightarrow>
        process_pages ext (h # hs) page e = Inr (False, emit [Log_skip_rule (page * per_page)] e))
   \<and> (next_count e = 0 \<and> processed_count e = 0 \<and> (\<forall>h \<in> set [h1, h2, h3, h4]. seen h e) \<longrightarrow>
        (\<exists>e'. process_pages ext (h1 # h2 # h3 # h4 # h5 # rest) page e = Inr (False, e')
           \<and> processed_count e' = 4 \<and> next_count e' = 0
           \<and> result e' = result e \<and> exclude_result e' = exclude_result e \<and> code e' = code e
           \<and> [ev \<leftarrow> events e'. ev \<noteq> Log_sha_exception]
               = [ev \<leftarrow> events e. ev \<noteq> Log_sha_exception]
                 @ [Log_processed (page * per_page), Log_processed (page * per_page + 1),
                    Log_processed (page * per_page + 2), Log_processed (page * per_page + 3),
                    Log_skip_rule (page * per_page + 4)]))"
proof (intro conjI impI)
  assume "next_count e = 0 \<and> processed_count e > 3"
  then show "\<exists>out e' evs. search_pages ext res pages e = Inr (out, e')
           \<and> next_count e' = 0 \<and> processed_count e' = processed_count e
           \<and> events e' = events e @ evs
           \<and> (\<forall>ev \<in> set evs. (\<exists>p. ev = Log_page_timeout p) \<or> ev = Process_report []
                                \<or> (\<exists>i. ev = Log_skip_rule i))"
    by (intro search_pages_aborted) simp_all
next
  assume "next_count e = 0 \<and> processed_count e > 3"
  then show "process_pages ext (h # hs) page e = Inr (False, emit [Log_skip_rule (page * per_page)] e)"
    by (intro process_pages_abort) simp_all
next
  assume "next_count e = 0 \<and> processed_count e = 0 \<and> (\<forall>h \<in> set [h1, h2, h3, h4]. seen h e)"
  then show "\<exists>e'. process_pages ext (h1 # h2 # h3 # h4 # h5 # rest) page e = Inr (False, e')
           \<and> processed_count e' = 4 \<and> next_count e' = 0
           \<and> result e' = result e \<and> exclude_result e' = exclude_result e \<and> code e' = code e
           \<and> [ev \<leftarrow> events e'. ev \<noteq> Log_sha_exception]
               = [ev \<leftarrow> events e. ev \<noteq> Log_sha_exception]
                 @ [Log_processed (page * per_page), Log_processed (page * per_page + 1),
                    Log_processed (page * per_page + 2), Log_processed (page * per_page + 3),
                    Log_skip_rule (page * per_page + 4)]"
    by (intro four_seen_then_abort) simp_all
qed

theorem early_abort_witness:
  "next_count (example_engine\<lparr>processed_count := 4\<rparr>) = 0
   \<and> processed_count (example_engine\<lparr>processed_count := 4\<rparr>) > 3
   \<and> (\<exists>out e'. search_pages example_externals
                   \<lparr>totalCount = Inr 100, get_page = (\<lambda>p. Inr [new_hit])\<rparr> [1, 2, 3]
                   (example_engine\<lparr>processed_count := 4\<rparr>) = Inr (out, e')
         \<and> next_count e' = 0 \<and> processed_count e' = 4)
   \<and> process_pages example_externals [new_hit] 1 (example_engine\<lparr>processed_count := 4\<rparr>)
       = Inr (False, emit [Log_skip_rule (1 * per_page)] (example_engine\<lparr>processed_count := 4\<rparr>))
   \<and> next_count (example_engine\<lparr>hash_list := [''s1'']\<rparr>) = 0
   \<and> processed_count (example_engine\<lparr>hash_list := [''s1'']\<rparr>) = 0
   \<and> seen seen_hit (example_engine\<lparr>hash_list := [''s1'']\<rparr>)
   \<and> (\<exists>e'. process_pages example_externals [seen_hit, seen_hit, seen_hit, seen_hit, new_hit] 0
               (example_engine\<lparr>hash_list := [''s1'']\<rparr>) = Inr (False, e')
         \<and> processed_count e' = 4 \<and> next_count e' = 0 \<and> result e' = [])"
proof -
  let ?a = "example_engine\<lparr>processed_count := 4\<rparr>"
  let ?b = "example_engine\<lparr>hash_list := [''s1'']\<rparr>"
  have ha: "next_count ?a = 0 \<and> processed_count ?a > 3"
    by (simp add: example_engine_def)
  have hb: "next_count ?b = 0 \<and> processed_count ?b = 0
            \<and> (\<forall>h \<in> set [seen_hit, seen_hit, seen_hit, seen_hit]. seen h ?b)"
    by (simp add: example_engine_def seen_def seen_hit_def)
  have rb: "result ?b = []" "processed_count ?a = 4"
    by (simp_all add: example_engine_def)
  note t = early_abort [where e = ?a and ext = example_externals
      and res = "\<lparr>totalCount = Inr 100, get_page = (\<lambda>p. Inr [new_hit])\<rparr>" and pages = "[1, 2, 3]"
      and h = new_hit and hs = "[]" and page = 1]
  note u = early_abort [where e = ?b and ext = example_externals and page = 0
      and ?h1.0 = seen_hit and ?h2.0 = seen_hit and ?h3.0 = seen_hit and ?h4.0 = seen_hit
      and ?h5.0 = new_hit and rest = "[]"]
  from t ha rb have 1: "\<exists>out e'. search_pages example_externals
                   \<lparr>totalCount = Inr 100, get_page = (\<lambda>p. Inr [new_hit])\<rparr> [1, 2, 3] ?a = Inr (out, e')
         \<and> next_count e' = 0 \<and> processed_count e' = 4"
    by (metis (no_types, lifting))
  from t ha have 2: "process_pages example_externals [new_hit] 1 ?a
       = Inr (False, emit [Log_skip_rule (1 * per_page)] ?a)"
    by blast
  from u hb rb have 3: "\<exists>e'. process_pages example_externals
               [seen_hit, seen_hit, seen_hit, seen_hit, new_hit] 0 ?b = Inr (False, e')
         \<and> processed_count e' = 4 \<and> next_count e' = 0 \<and> result e' = []"
    by (metis (no_types, lifting))
  from hb have "seen seen_hit ?b" by simp
  with ha hb 1 2 3 show ?thesis by blast
qed

lemma process_pages_events:
  "process_pages ext hits page e = Inr (go_on, e') \<Longrightarrow>
   \<exists>evs. events e' = events e @ evs \<and> (\<forall>ev \<in> set evs. \<forall>m. ev \<noteq> Process_report m)"
  unfolding process_pages_def by (rule process_items_events)

lemma process_pages_break:
  assumes "process_pages ext hits page e = Inr (False, e')"
  shows "next_count e' = 0 \<and> result e' = result e \<and> exclude_result e' = exclude_result e"
proof -
  from assms have "process_items ext page (enumerate 0 hits) e = Inr (False, e')"
    by (simp add: process_pages_def)
  from process_items_counts [OF this] show ?thesis by simp
qed

lemma search_pages_events:
  "search_pages ext res pages e = Inr (out, e') \<Longrightarrow> \<exists>evs. events e' = events e @ evs"
proof (induction pages arbitrary: e)
  case Nil
  then show ?case by simp
next
  case (Cons page pages)
  let ?e1 = "e\<lparr>result := [], exclude_result := []\<rparr>"
  show ?case
  proof (cases "get_page res page")
    case (Inl f)
    show ?thesis
    proof (cases f)
      case Timeout
      with Inl Cons.prems
      have "search_pages ext res pages (emit [Log_page_timeout page] ?e1) = Inr (out, e')"
        by simp
      from Cons.IH [OF this] show ?thesis by (auto simp: emit_simps)
    next
      case (GithubException ex)
      with Inl Cons.prems show ?thesis by (auto simp: Let_def)
    qed
  next
    case (Inr hits)
    with Cons.prems obtain go_on e2 where p: "process_pages ext hits page ?e1 = Inr (go_on, e2)"
      by (auto split: sum.splits)
    from process_pages_events [OF p] obtain evs where e2: "events e2 = events e @ evs"
      by auto
    show ?thesis
    proof (cases go_on)
      case True
      with Inr p Cons.prems
      have "search_pages ext res pages (emit [Process_report (result e2)] e2) = Inr (out, e')"
        by simp
      from Cons.IH [OF this] e2 show ?thesis by (auto simp: emit_simps)
    next
      case False
      with Inr p Cons.prems have "e' = e2" by simp
      with e2 show ?thesis by simp
    qed
  qed
qed

text \<open>
  Claim C4 as stated fails on the page where the early abort fires: \<open>search\<close> leaves the
  loop by \<open>break\<close> before \<open>Process(...).process()\<close>, so that page is never reported.
\<close>

theorem page_flush_counterexample:
  "map_sum id (\<lambda>(r, e'). (fst r, events e'))
     (search example_externals
        (example_github 5 (\<lambda>p. Inr [seen_hit, seen_hit, seen_hit, seen_hit, new_hit]))
        [''s1''] example_rule example_engine)
   = Inr (True, [Log_processed 0, Log_processed 1, Log_processed 2, Log_processed 3,
                 Log_skip_rule 4])"
  by code_simp

text \<open>
  Claim C4, as amended. For every fetched page, the hits add no report of their own. When
  \<open>process_pages\<close> returns \<open>True\<close>, the confirmed results of the page (gathered from an
  empty dictionary) are reported right after the events of its hits, and the remaining
  pages run from the state after that report. When it returns \<open>False\<close> (the early abort)
  the loop ends without a report for that page; the two dictionaries are then empty, so no
  confirmed result is left unreported.
\<close>

theorem page_flush:
  assumes "get_page res page = Inr hits"
    and "process_pages ext hits page (e\<lparr>result := [], exclude_result := []\<rparr>) = Inr (go_on, e2)"
  shows "(\<exists>hit_evs. events e2 = events e @ hit_evs \<and> (\<forall>ev \<in> set hit_evs. \<forall>m. ev \<noteq> Process_report m))
       \<and> (go_on \<longrightarrow>
            search_pages ext res (page # pages) e
              = search_pages ext res pages (emit [Process_report (result e2)] e2)
            \<and> (\<forall>out e'. search_pages ext res (page # pages) e = Inr (out, e') \<longrightarrow>
                  (\<exists>later. events e' = events e2 @ Process_report (result e2) # later)))
       \<and> (\<not> go_on \<longrightarrow>
            search_pages ext res (page # pages) e = Inr (Broke, e2)
            \<and> next_count e2 = 0 \<and> result e2 = [] \<and> exclude_result e2 = [])"
proof (intro conjI impI allI)
  from process_pages_events [OF assms(2)]
  show "\<exists>hit_evs. events e2 = events e @ hit_evs \<and> (\<forall>ev \<in> set hit_evs. \<forall>m. ev \<noteq> Process_report m)"
    by simp
next
  assume g: go_on
  with assms show eq: "search_pages ext res (page # pages) e
              = search_pages ext res pages (emit [Process_report (result e2)] e2)"
    by simp
  fix out e'
  assume "search_pages ext res (page # pages) e = Inr (out, e')"
  with eq have "search_pages ext res pages (emit [Process_report (result e2)] e2) = Inr (out, e')"
    by simp
  from search_pages_events [OF this]
  show "\<exists>later. events e' = events e2 @ Process_report (result e2) # later"
    by (simp add: emit_simps)
next
  assume g: "\<not> go_on"
  with assms show "search_pages ext res (page # pages) e = Inr (Broke, e2)"
    by simp
  from g assms(2) have "process_pages ext hits page (e\<lparr>result := [], exclude_result := []\<rparr>)
                          = Inr (False, e2)"
    by simp
  from process_pages_break [OF this]
  show "next_count e2 = 0" "result e2 = []" "exclude_result e2 = []"
    by simp_all
qed

lemma example_engine_reset: "example_engine\<lparr>result := [], exclude_result := []\<rparr> = example_engine"
  by (simp add: example_engine_def)

lemma process_pages_new_hit:
  "process_pages example_externals [new_hit] 0 example_engine
     = Inr (True, example_engine
              \<lparr>code := '' password'', full_name := ''o/r'', sha := ''s2'', url := ''u2'',
               path := ''b.py'',
               result := [(0, \<lparr>r_url = ''u2'', r_match_codes = ['' password''], r_hash = ''s2'',
                               r_code = '' password'', r_repository = ''o/r'', r_path = ''b.py''\<rparr>)],
               next_count := 1, events := [Clone ''g'' ''s2'', Log_complete 0]\<rparr>)"
  by (simp add: process_pages_def enumerate_simps process_new_hit)

theorem page_flush_witness:
  "get_page \<lparr>totalCount = Inr 1, get_page = (\<lambda>p. Inr [new_hit])\<rparr> 0 = Inr [new_hit]
   \<and> (\<exists>e2. process_pages example_externals [new_hit] 0
               (example_engine\<lparr>result := [], exclude_result := []\<rparr>) = Inr (True, e2)
         \<and> search_pages example_externals \<lparr>totalCount = Inr 1, get_page = (\<lambda>p. Inr [new_hit])\<rparr> [0]
               example_engine
             = Inr (Exhausted, emit [Process_report (result e2)] e2)
         \<and> events e2 = [Clone ''g'' ''s2'', Log_complete 0]
         \<and> length (result e2) = 1)
   \<and> (\<exists>e3. process_pages example_externals [new_hit] 0
               (example_engine\<lparr>processed_count := 4, result := [], exclude_result := []\<rparr>)
              = Inr (False, e3)
         \<and> search_pages example_externals \<lparr>totalCount = Inr 1, get_page = (\<lambda>p. Inr [new_hit])\<rparr> [0]
               (example_engine\<lparr>processed_count := 4\<rparr>)
             = Inr (Broke, e3)
         \<and> next_count e3 = 0 \<and> result e3 = [] \<and> exclude_result e3 = [])"
proof -
  let ?res = "\<lparr>totalCount = Inr 1, get_page = (\<lambda>p. Inr [new_hit])\<rparr>"
  let ?e2 = "example_engine
              \<lparr>code := '' password'', full_name := ''o/r'', sha := ''s2'', url := ''u2'',
               path := ''b.py'',
               result := [(0, \<lparr>r_url = ''u2'', r_match_codes = ['' password''], r_hash = ''s2'',
                               r_code = '' password'', r_repository = ''o/r'', r_path = ''b.py''\<rparr>)],
               next_count := 1, events := [Clone ''g'' ''s2'', Log_complete 0]\<rparr>"
  let ?e3 = "emit [Log_skip_rule (0 * per_page)]
               (example_engine\<lparr>processed_count := 4, result := [], exclude_result := []\<rparr>)"
  have g: "get_page ?res 0 = Inr [new_hit]" by simp
  have p2: "process_pages example_externals [new_hit] 0
              (example_engine\<lparr>result := [], exclude_result := []\<rparr>) = Inr (True, ?e2)"
    by (simp only: example_engine_reset process_pages_new_hit)
  have p3: "process_pages example_externals [new_hit] 0
              (example_engine\<lparr>processed_count := 4, result := [], exclude_result := []\<rparr>)
              = Inr (False, ?e3)"
    by (rule process_pages_abort) (simp_all add: example_engine_def)
  from page_flush [OF g p2, of "[]"]
  have 2: "search_pages example_externals ?res [0] example_engine
             = Inr (Exhausted, emit [Process_report (result ?e2)] ?e2)"
    by simp
  from page_flush [OF g p3, of "[]"]
  have 3: "search_pages example_externals ?res [0] (example_engine\<lparr>processed_count := 4\<rparr>)
             = Inr (Broke, ?e3)"
    "next_count ?e3 = 0" "result ?e3 = []" "exclude_result ?e3 = []"
    by simp_all
  have v: "events ?e2 = [Clone ''g'' ''s2'', Log_complete 0]" "length (result ?e2) = 1"
    by simp_all
  from g p2 2 v p3 3 show ?thesis
    by blast
qed

lemma search_pages_last:
  assumes "search_pages ext res pages e = Inr (out, e')" "pages \<noteq> []"
    and "out = Broke \<or> out = Exhausted"
  shows "\<exists>pre page post e_p. pages = pre @ page # post
           \<and> search_pages ext res pre e = Inr (Exhausted, e_p)
           \<and> search_pages ext res [page] e_p = Inr (out, e')
           \<and> (out = Exhausted \<longrightarrow> post = [])"
  using assms(1,2)
proof (induction pages arbitrary: e)
  case Nil
  then show ?case by simp
next
  case (Cons page pages)
  let ?e1 = "e\<lparr>result := [], exclude_result := []\<rparr>"
  have go: "\<exists>pre pg post e_p. page # pages = pre @ pg # post
           \<and> search_pages ext res pre e = Inr (Exhausted, e_p)
           \<and> search_pages ext res [pg] e_p = Inr (out, e')
           \<and> (out = Exhausted \<longrightarrow> post = [])"
    if one: "search_pages ext res [page] e = Inr (Exhausted, x)"
      and rest: "search_pages ext res (page # pages) e = search_pages ext res pages x" for x
  proof (cases "pages = []")
    case True
    with one rest Cons.prems have "search_pages ext res [page] e = Inr (out, e')" by simp
    moreover from this one have "out = Exhausted" by simp
    ultimately have "page # pages = [] @ page # [] \<and> search_pages ext res [] e = Inr (Exhausted, e)
           \<and> search_pages ext res [page] e = Inr (out, e') \<and> (out = Exhausted \<longrightarrow> [] = [])"
      using True by simp
    then show ?thesis by blast
  next
    case False
    from rest Cons.prems have "search_pages ext res pages x = Inr (out, e')" by simp
    from Cons.IH [OF this False] obtain pre pg post e_p where
      d: "pages = pre @ pg # post" "search_pages ext res pre x = Inr (Exhausted, e_p)"
        "search_pages ext res [pg] e_p = Inr (out, e')" "out = Exhausted \<longrightarrow> post = []"
      by blast
    have "search_pages ext res (page # pre) e = search_pages ext res pre x"
      using one by (auto simp: Let_def split: sum.splits failure.splits prod.splits if_splits)
    with d have "page # pages = (page # pre) @ pg # post
           \<and> search_pages ext res (page # pre) e = Inr (Exhausted, e_p)
           \<and> search_pages ext res [pg] e_p = Inr (out, e')
           \<and> (out = Exhausted \<longrightarrow> post = [])"
      by simp
    then show ?thesis by blast
  qed
  show ?case
  proof (cases "get_page res page")
    case (Inl f)
    show ?thesis
    proof (cases f)
      case Timeout
      with Inl show ?thesis
        by (intro go [of "emit [Log_page_timeout page] ?e1"]) simp_all
    next
      case (GithubException ex)
      with Inl Cons.prems assms(3) show ?thesis by (auto simp: Let_def)
    qed
  next
    case (Inr hits)
    with Cons.prems obtain go_on e2 where p: "process_pages ext hits page ?e1 = Inr (go_on, e2)"
      by (auto split: sum.splits)
    show ?thesis
    proof (cases go_on)
      case True
      with Inr p show ?thesis
        by (intro go [of "emit [Process_report (result e2)] e2"]) simp_all
    next
      case False
      with Inr p Cons.prems have "out = Broke" "e' = e2"
        "search_pages ext res [page] e = Inr (Broke, e2)"
        by simp_all
      then have "page # pages = [] @ page # pages \<and> search_pages ext res [] e = Inr (Exhausted, e)
           \<and> search_pages ext res [page] e = Inr (out, e') \<and> (out = Exhausted \<longrightarrow> pages = [])"
        by simp
      then show ?thesis by blast
    qed
  qed
qed

lemma search_pages_single_keys:
  assumes "search_pages ext res [page] e = Inr (out, e')"
    and "k \<in> fst ` set (result e')"
  shows "\<exists>hits. get_page res page = Inr hits \<and> page * per_page \<le> k
           \<and> k < page * per_page + length hits"
proof -
  let ?e1 = "e\<lparr>result := [], exclude_result := []\<rparr>"
  show ?thesis
  proof (cases "get_page res page")
    case (Inl f)
    with assms show ?thesis
      by (cases f) (auto simp: Let_def emit_simps)
  next
    case (Inr hits)
    with assms(1) obtain go_on e2 where p: "process_pages ext hits page ?e1 = Inr (go_on, e2)"
      and r: "result e' = result e2"
      by (auto simp: emit_simps split: sum.splits if_splits)
    from p have "process_items ext page (enumerate 0 hits) ?e1 = Inr (go_on, e2)"
      by (simp add: process_pages_def)
    from process_items_keys [OF this, of k] assms(2) r
    obtain i h where "(i, h) \<in> set (enumerate 0 hits)" "k = page * per_page + i"
      by auto
    then have "i < length hits" by (simp add: in_set_enumerate_eq)
    with Inr \<open>k = page * per_page + i\<close> show ?thesis by simp
  qed
qed

text \<open>
  Claim C10. The count returned by a successful \<open>search\<close> is the size of \<open>self.result\<close> at
  the end, and that dictionary is the one of the last page iterated alone: the range of
  pages splits into pages iterated to their end, the last page iterated, and pages never
  reached (none unless the loop broke); the final state is what iterating that one page
  gives from emptied dictionaries, and every key counted is a position of that page.
\<close>

theorem summary_counts_last_page:
  assumes "search ext g config_hash_list r e = Inr ((True, r', s), e')"
  shows "s = Count (length (result e'))
       \<and> (\<exists>res total_count pre page post e_p out.
             search_code g (search_keyword r) = Inr res \<and> totalCount res = Inr total_count
           \<and> [0..<(if total_count < int per_page then 1 else default_pages)] = pre @ page # post
           \<and> search_pages ext res pre
                (e\<lparr>rule_object := r, processed_count := 0, next_count := 0,
                   hash_list := config_hash_list\<rparr>) = Inr (Exhausted, e_p)
           \<and> search_pages ext res [page] (e_p\<lparr>result := [], exclude_result := []\<rparr>) = Inr (out, e')
           \<and> (out = Broke \<or> out = Exhausted \<and> post = [])
           \<and> (\<forall>k \<in> fst ` set (result e').
                 \<exists>hits. get_page res page = Inr hits \<and> page * per_page \<le> k
                        \<and> k < page * per_page + length hits))"
proof -
  let ?e1 = "e\<lparr>rule_object := r, processed_count := 0, next_count := 0,
                hash_list := config_hash_list\<rparr>"
  from assms obtain res total_count out
    where sc: "search_code g (search_keyword r) = Inr res" and tc: "totalCount res = Inr total_count"
      and sp: "search_pages ext res [0..<(if total_count < int per_page then 1 else default_pages)] ?e1
                 = Inr (out, e')"
      and o: "out = Broke \<or> out = Exhausted" and s: "s = Count (length (result e'))"
    by (auto simp: search_def Let_def split: sum.splits failure.splits prod.splits loop_exit.splits)
  have ne: "[0..<(if total_count < int per_page then 1 else default_pages)] \<noteq> []"
    by (simp add: default_pages_def)
  from search_pages_last [OF sp ne o] obtain pre page post e_p where
    d: "[0..<(if total_count < int per_page then 1 else default_pages)] = pre @ page # post"
      "search_pages ext res pre ?e1 = Inr (Exhausted, e_p)"
      "search_pages ext res [page] e_p = Inr (out, e')" "out = Exhausted \<longrightarrow> post = []"
    by blast
  have rs: "search_pages ext res [page] (e_p\<lparr>result := [], exclude_result := []\<rparr>)
              = search_pages ext res [page] e_p"
    by (simp add: Let_def)
  have k: "\<forall>k \<in> fst ` set (result e').
             \<exists>hits. get_page res page = Inr hits \<and> page * per_page \<le> k
                    \<and> k < page * per_page + length hits"
    using search_pages_single_keys [OF d(3)] by blast
  from o d(4) have "out = Broke \<or> out = Exhausted \<and> post = []" by blast
  with s sc tc d rs k show ?thesis
    by (metis (no_types, lifting))
qed

lemma search_first_page_only:
  "map_sum id (\<lambda>(r, e'). (r, result e', events e'))
     (search example_externals
        (example_github 100 (\<lambda>p. if p = 0 then Inr [new_hit] else Inr []))
        [] example_rule example_engine)
   = Inr ((True, example_rule, Count 0), [],
          [Clone ''g'' ''s2'', Log_complete 0,
           Process_report
             [(0, \<lparr>r_url = ''u2'', r_match_codes = ['' password''], r_hash = ''s2'',
                    r_code = '' password'', r_repository = ''o/r'', r_path = ''b.py''\<rparr>)],
           Process_report [], Process_report [], Process_report []])"
  by code_simp

theorem summary_counts_last_page_witness:
  "\<exists>e'. search example_externals
          (example_github 100 (\<lambda>p. if p = 0 then Inr [new_hit] else Inr []))
          [] example_rule example_engine
        = Inr ((True, example_rule, Count 0), e')
      \<and> Count 0 = Count (length (result e'))
      \<and> Process_report
           [(0, \<lparr>r_url = ''u2'', r_match_codes = ['' password''], r_hash = ''s2'',
                  r_code = '' password'', r_repository = ''o/r'', r_path = ''b.py''\<rparr>)]
          \<in> set (events e')"
proof -
  let ?s = "search example_externals
          (example_github 100 (\<lambda>p. if p = 0 then Inr [new_hit] else Inr []))
          [] example_rule example_engine"
  from search_first_page_only obtain e' where
    s: "?s = Inr ((True, example_rule, Count 0), e')"
    and ev: "events e' = [Clone ''g'' ''s2'', Log_complete 0,
           Process_report
             [(0, \<lparr>r_url = ''u2'', r_match_codes = ['' password''], r_hash = ''s2'',
                    r_code = '' password'', r_repository = ''o/r'', r_path = ''b.py''\<rparr>)],
           Process_report [], Process_report [], Process_report []]"
    by (cases ?s) auto
  from summary_counts_last_page [OF s] have "Count 0 = Count (length (result e'))"
    by blast
  with s ev show ?thesis by simp
qed

section \<open>Properties of mail mode\<close>

subsection \<open>Character classes\<close>

lemma local_not_space: "local_char c \<Longrightarrow> \<not> isspace c"
  by (auto simp: local_char_def is_alnum_def isspace_def Let_def)

lemma host_head_local: "host_head_char c \<Longrightarrow> local_char c"
  by (auto simp: local_char_def host_head_char_def)

lemma host_tail_local: "host_tail_char c \<Longrightarrow> local_char c"
  by (auto simp: local_char_def host_tail_char_def)

lemma host_head_tail: "host_head_char c \<Longrightarrow> host_tail_char c"
  by (auto simp: host_tail_char_def host_head_char_def)

lemma at_not_local: "\<not> local_char (CHR ''@'')"
  by (simp add: local_char_def is_alnum_def)

lemma dot_not_head: "\<not> host_head_char (CHR ''.'')"
  by (simp add: host_head_char_def is_alnum_def)

lemma dot_local: "local_char (CHR ''.'')"
  by (simp add: local_char_def)

lemma lower_char_alnum: "is_alnum c \<Longrightarrow> is_alnum (lower_char c)"
  by (auto simp: is_alnum_def lower_char_def Let_def)

lemma lower_char_other: "\<not> is_alnum c \<Longrightarrow> (of_char c :: nat) < 128 \<Longrightarrow> lower_char c = c"
  by (auto simp: is_alnum_def lower_char_def Let_def)

lemma lower_char_local: "local_char c \<Longrightarrow> local_char (lower_char c)"
  by (cases "is_alnum c") (auto simp: local_char_def lower_char_alnum lower_char_other)

lemma lower_char_head: "host_head_char c \<Longrightarrow> host_head_char (lower_char c)"
  by (cases "is_alnum c") (auto simp: host_head_char_def lower_char_alnum lower_char_other)

lemma lower_char_tail: "host_tail_char c \<Longrightarrow> host_tail_char (lower_char c)"
  by (cases "is_alnum c") (auto simp: host_tail_char_def lower_char_alnum lower_char_other)

lemma lower_char_at: "lower_char (CHR ''@'') = CHR ''@''"
  by (simp add: lower_char_def)

lemma lower_char_dot: "lower_char (CHR ''.'') = CHR ''.''"
  by (simp add: lower_char_def)

subsection \<open>The shape of a matched address\<close>

lemma match_host_shape:
  assumes "match_host s = Some (h, rest)"
  shows "\<exists>d1 d2. h = d1 @ [CHR ''.''] @ d2
           \<and> d1 \<noteq> [] \<and> (\<forall>c \<in> set d1. host_head_char c)
           \<and> d2 \<noteq> [] \<and> (\<forall>c \<in> set d2. host_tail_char c)"
proof -
  from assms obtain r2 where
    h: "h = takeWhile host_head_char s @ [CHR ''.''] @ takeWhile host_tail_char r2"
    and n: "takeWhile host_head_char s \<noteq> []" "takeWhile host_tail_char r2 \<noteq> []"
    by (auto simp: match_host_def Let_def split: if_splits list.splits)
  moreover have "\<forall>c \<in> set (takeWhile host_head_char s). host_head_char c"
    "\<forall>c \<in> set (takeWhile host_tail_char r2). host_tail_char c"
    by (auto dest: set_takeWhileD)
  ultimately show ?thesis by blast
qed

lemma match_mail_shape:
  assumes "match_mail s = Some (m, rest)"
  shows "\<exists>l d1 d2. address_shape m l d1 d2"
proof -
  from assms obtain r1 h where
    m: "m = takeWhile local_char s @ [CHR ''@''] @ h"
    and n: "takeWhile local_char s \<noteq> []"
    and h: "match_host r1 = Some (h, rest)"
    by (auto simp: match_mail_def Let_def split: if_splits list.splits option.splits)
  from match_host_shape [OF h] obtain d1 d2 where
    "h = d1 @ [CHR ''.''] @ d2" "d1 \<noteq> []" "\<forall>c \<in> set d1. host_head_char c"
    "d2 \<noteq> []" "\<forall>c \<in> set d2. host_tail_char c"
    by blast
  moreover have "\<forall>c \<in> set (takeWhile local_char s). local_char c"
    by (auto dest: set_takeWhileD)
  ultimately have "address_shape m (takeWhile local_char s) d1 d2"
    using m n by (simp add: address_shape_def)
  then show ?thesis by blast
qed

lemma findall_mail_shape:
  "mm \<in> set (findall_mail s) \<Longrightarrow> \<exists>l d1 d2. address_shape mm l d1 d2"
proof (induction s rule: findall_mail.induct)
  case 1
  then show ?case by simp
next
  case (2 c cs)
  show ?case
  proof (cases "match_mail (c # cs)")
    case None
    with 2 show ?thesis by simp
  next
    case (Some p)
    obtain m rest where p: "p = (m, rest)" by (cases p)
    from 2(3) Some p have "mm = m \<or> mm \<in> set (findall_mail rest)" by simp
    then show ?thesis
    proof
      assume "mm = m"
      with match_mail_shape [of "c # cs" m rest] Some p show ?thesis by simp
    next
      assume "mm \<in> set (findall_mail rest)"
      with 2(2) [OF Some p [symmetric]] show ?thesis by simp
    qed
  qed
qed

subsection \<open>Trimming and lower-casing an address\<close>

lemma strip_id: "s \<noteq> [] \<Longrightarrow> \<not> isspace (hd s) \<Longrightarrow> \<not> isspace (last s) \<Longrightarrow> strip s = s"
proof -
  assume a: "s \<noteq> []" "\<not> isspace (hd s)" "\<not> isspace (last s)"
  then have 1: "dropWhile isspace s = s"
    by (cases s) simp_all
  from a have "rev s \<noteq> []" "\<not> isspace (hd (rev s))"
    by (simp_all add: hd_rev)
  then have 2: "dropWhile isspace (rev s) = rev s"
    by (cases "rev s") simp_all
  show ?thesis by (simp add: strip_def 1 2)
qed

lemma strip_local: "s \<noteq> [] \<Longrightarrow> \<forall>c \<in> set s. local_char c \<or> c = CHR ''@'' \<Longrightarrow> strip s = s"
proof (rule strip_id)
  assume a: "s \<noteq> []" "\<forall>c \<in> set s. local_char c \<or> c = CHR ''@''"
  have at: "\<not> isspace (CHR ''@'')" by (simp add: isspace_def)
  from a have "hd s \<in> set s" "last s \<in> set s" by simp_all
  with a at show "\<not> isspace (hd s)" "\<not> isspace (last s)"
    by (auto dest: local_not_space)
qed

lemma address_shape_chars:
  "address_shape m l d1 d2 \<Longrightarrow> m \<noteq> [] \<and> (\<forall>c \<in> set m. local_char c \<or> c = CHR ''@'')"
  by (auto simp: address_shape_def dot_local dest: host_head_local host_tail_local)

lemma address_shape_strip: "address_shape m l d1 d2 \<Longrightarrow> strip m = m"
  using address_shape_chars [of m l d1 d2] by (simp add: strip_local)

lemma address_shape_lower:
  "address_shape m l d1 d2 \<Longrightarrow> address_shape (lower m) (lower l) (lower d1) (lower d2)"
  by (auto simp: address_shape_def lower_def lower_char_at lower_char_dot
           intro: lower_char_local lower_char_head lower_char_tail)

subsection \<open>The host of an address\<close>

lemma findall_host_skip: "\<forall>c \<in> set l. c \<noteq> CHR ''@'' \<Longrightarrow> findall_host (l @ s) = findall_host s"
  by (induction l) simp_all

lemma match_host_exact:
  assumes "d1 \<noteq> []" "\<forall>c \<in> set d1. host_head_char c" "d2 \<noteq> []" "\<forall>c \<in> set d2. host_tail_char c"
  shows "match_host (d1 @ [CHR ''.''] @ d2) = Some (d1 @ [CHR ''.''] @ d2, [])"
proof -
  have t1: "takeWhile host_head_char (d1 @ [CHR ''.''] @ d2) = d1"
    using assms(2) dot_not_head by (simp add: takeWhile_append2)
  have r1: "dropWhile host_head_char (d1 @ [CHR ''.''] @ d2) = CHR ''.'' # d2"
    using assms(2) dot_not_head by (simp add: dropWhile_append2)
  have t2: "takeWhile host_tail_char d2 = d2" "dropWhile host_tail_char d2 = []"
    using assms(4) by simp_all
  show ?thesis
    using assms(1,3) by (simp add: match_host_def Let_def t1 r1 t2 del: append.simps)
qed

lemma address_shape_host:
  assumes "address_shape m l d1 d2"
  shows "findall_host m = [d1 @ [CHR ''.''] @ d2]"
proof -
  from assms have m: "m = l @ (CHR ''@'' # (d1 @ [CHR ''.''] @ d2))"
    and l: "\<forall>c \<in> set l. c \<noteq> CHR ''@''"
    and d: "d1 \<noteq> []" "\<forall>c \<in> set d1. host_head_char c" "d2 \<noteq> []" "\<forall>c \<in> set d2. host_tail_char c"
    using at_not_local by (auto simp: address_shape_def)
  show ?thesis
    unfolding m findall_host_skip [OF l]
    by (simp add: match_host_exact [OF d] del: append.simps)
qed

lemma host_strip:
  assumes "address_shape m l d1 d2"
  shows "strip (d1 @ [CHR ''.''] @ d2) = d1 @ [CHR ''.''] @ d2"
proof (rule strip_local)
  show "d1 @ [CHR ''.''] @ d2 \<noteq> []" by simp
  from assms show "\<forall>c \<in> set (d1 @ [CHR ''.''] @ d2). local_char c \<or> c = CHR ''@''"
    by (auto simp: address_shape_def dot_local dest: host_head_local host_tail_local)
qed

subsection \<open>An IP literal starts with a digit\<close>

lemma split_from_first: "split_from sep cur s = x # xs \<Longrightarrow> x = cur @ takeWhile (\<lambda>c. c \<noteq> sep) s"
proof (induction s arbitrary: cur)
  case Nil
  then show ?case by simp
next
  case (Cons a s)
  show ?case
  proof (cases "a = sep")
    case True
    with Cons.prems show ?thesis by simp
  next
    case False
    with Cons.prems have "split_from sep (cur @ [a]) s = x # xs" by simp
    from Cons.IH [OF this] False show ?thesis by simp
  qed
qed

lemma octet_digit: "octet a \<Longrightarrow> a \<noteq> [] \<and> is_digit (hd a)"
  by (auto simp: octet_def is_digit_def split: list.splits)

lemma dotted_quad_digit:
  assumes "dotted_quad s"
  shows "s \<noteq> [] \<and> is_digit (hd s)"
proof -
  from assms obtain a b c d where sp: "split s (CHR ''.'') = [a, b, c, d]" and o: "octet a"
    by (auto simp: dotted_quad_def split: list.splits)
  from sp have a: "a = takeWhile (\<lambda>c. c \<noteq> CHR ''.'') s"
    using split_from_first [of "CHR ''.''" "[]" s a "[b, c, d]"] by (simp add: split_def)
  from octet_digit [OF o] a show ?thesis
    by (cases s) (auto split: if_splits)
qed

lemma regex_ip_digit:
  assumes "regex_ip_match s"
  shows "s \<noteq> [] \<and> is_digit (hd s)"
proof -
  from assms consider "dotted_quad s" | "s \<noteq> []" "dotted_quad (butlast s)"
    by (auto simp: regex_ip_match_def)
  then show ?thesis
  proof cases
    case 1
    then show ?thesis by (rule dotted_quad_digit)
  next
    case 2
    from dotted_quad_digit [OF 2(2)] have "butlast s \<noteq> []" "is_digit (hd (butlast s))"
      by simp_all
    then show ?thesis using 2(1) by (cases s) (auto split: if_splits)
  qed
qed

lemma inner_ip_domain:
  "is_inner_ip ext host \<Longrightarrow> mail_domain ext host = ''http://'' @ host"
  by (simp add: is_inner_ip_def mail_domain_def)

lemma domain_not_inner:
  assumes "is_inner_ip ext host" "\<not> is_inner_ip ext host'"
  shows "mail_domain ext host' \<noteq> ''http://'' @ host"
proof
  assume e: "mail_domain ext host' = ''http://'' @ host"
  have "mail_domain ext host' = ''http://www.'' @ host' \<or> mail_domain ext host' = ''http://'' @ host'"
    by (simp add: mail_domain_def Let_def)
  then show False
  proof
    assume "mail_domain ext host' = ''http://www.'' @ host'"
    with e have "host = ''www.'' @ host'" by simp
    moreover from assms(1) have "is_digit (hd host)"
      using regex_ip_digit [of host] by (simp add: is_inner_ip_def)
    ultimately show False by (simp add: is_digit_def)
  next
    assume "mail_domain ext host' = ''http://'' @ host'"
    with e have "host' = host" by simp
    with assms show False by simp
  qed
qed

subsection \<open>The loop of mail mode\<close>

lemma mail_step_cases:
  assumes "findall_host (lower (strip mm)) \<noteq> []"
  shows "mail_step ext mm st =
           Inr (if lower (strip mm) \<in> set (mails st)
                   \<or> mail_host (lower (strip mm)) \<in> set (public_mail_services ext)
                then st
                else st\<lparr>mails := mails st @ [lower (strip mm)],
                        mail_match_codes :=
                          mail_match_codes st
                          @ [mail_fragment ext (lower (strip mm)) (mail_host (lower (strip mm)))],
                        mail_requests :=
                          (if \<not> is_inner_ip ext (mail_host (lower (strip mm)))
                           then mail_requests st @ [mail_domain ext (mail_host (lower (strip mm)))]
                           else mail_requests st)\<rparr>)"
  using assms by (cases "findall_host (lower (strip mm))") (simp_all add: mail_step_def mail_host_def Let_def)

lemma mail_step_inv:
  assumes "findall_host (lower (strip mm)) \<noteq> []" "mail_inv ext st"
  shows "\<exists>st'. mail_step ext mm st = Inr st' \<and> mail_inv ext st'
           \<and> set (mails st) \<subseteq> set (mails st')
           \<and> (mail_host (lower (strip mm)) \<notin> set (public_mail_services ext)
                \<longrightarrow> lower (strip mm) \<in> set (mails st'))"
proof (cases "lower (strip mm) \<in> set (mails st)
                   \<or> mail_host (lower (strip mm)) \<in> set (public_mail_services ext)")
  case True
  with assms(2) show ?thesis
    unfolding mail_step_cases [OF assms(1)] by auto
next
  case False
  let ?addr = "lower (strip mm)"
  let ?st' = "st\<lparr>mails := mails st @ [?addr],
                  mail_match_codes := mail_match_codes st @ [mail_fragment ext ?addr (mail_host ?addr)],
                  mail_requests := (if \<not> is_inner_ip ext (mail_host ?addr)
                                    then mail_requests st @ [mail_domain ext (mail_host ?addr)]
                                    else mail_requests st)\<rparr>"
  from False have s: "mail_step ext mm st = Inr ?st'"
    unfolding mail_step_cases [OF assms(1)] by simp
  have "mail_inv ext ?st'"
    using assms False unfolding mail_inv_def by (auto split: if_splits)
  with s show ?thesis by auto
qed

lemma mail_loop_inv:
  assumes "\<forall>mm \<in> set mail_multi. findall_host (lower (strip mm)) \<noteq> []" "mail_inv ext st"
  shows "\<exists>st'. mail_loop ext mail_multi st = Inr st' \<and> mail_inv ext st'
           \<and> set (mails st) \<subseteq> set (mails st')
           \<and> (\<forall>mm \<in> set mail_multi.
                 mail_host (lower (strip mm)) \<notin> set (public_mail_services ext)
                 \<longrightarrow> lower (strip mm) \<in> set (mails st'))"
  using assms
proof (induction mail_multi arbitrary: st)
  case Nil
  then show ?case by simp
next
  case (Cons mm mail_multi)
  from Cons.prems have h: "findall_host (lower (strip mm)) \<noteq> []" by simp
  from mail_step_inv [OF h Cons.prems(2)] obtain st1 where
    1: "mail_step ext mm st = Inr st1" "mail_inv ext st1" "set (mails st) \<subseteq> set (mails st1)"
      "mail_host (lower (strip mm)) \<notin> set (public_mail_services ext)
         \<longrightarrow> lower (strip mm) \<in> set (mails st1)"
    by blast
  from Cons.prems have "\<forall>mm \<in> set mail_multi. findall_host (lower (strip mm)) \<noteq> []" by simp
  from Cons.IH [OF this 1(2)] obtain st' where
    2: "mail_loop ext mail_multi st1 = Inr st'" "mail_inv ext st'" "set (mails st1) \<subseteq> set (mails st')"
      "\<forall>mm \<in> set mail_multi.
         mail_host (lower (strip mm)) \<notin> set (public_mail_services ext)
         \<longrightarrow> lower (strip mm) \<in> set (mails st')"
    by blast
  from 1 2 have "mail_loop ext (mm # mail_multi) st = Inr st'" by simp
  moreover from 1 2 have "set (mails st) \<subseteq> set (mails st')" by blast
  moreover from 1 2 have "\<forall>m \<in> set (mm # mail_multi).
         mail_host (lower (strip m)) \<notin> set (public_mail_services ext)
         \<longrightarrow> lower (strip m) \<in> set (mails st')"
    by auto
  ultimately show ?case using 2(2) by blast
qed

lemma found_address_host:
  assumes "mm \<in> set (findall_mail text)"
  shows "\<exists>l d1 d2. address_shape mm l d1 d2 \<and> strip mm = mm
           \<and> findall_host mm = [d1 @ [CHR ''.''] @ d2]
           \<and> findall_host (lower (strip mm)) = [lower (d1 @ [CHR ''.''] @ d2)]
           \<and> mail_host (lower (strip mm)) = lower (d1 @ [CHR ''.''] @ d2)
           \<and> strip (d1 @ [CHR ''.''] @ d2) = d1 @ [CHR ''.''] @ d2"
proof -
  from findall_mail_shape [OF assms] obtain l d1 d2 where s: "address_shape mm l d1 d2"
    by blast
  note ls = address_shape_lower [OF s]
  have st: "strip mm = mm" by (rule address_shape_strip [OF s])
  have lh: "lower (d1 @ [CHR ''.''] @ d2) = lower d1 @ [CHR ''.''] @ lower d2"
    by (simp add: lower_def lower_char_dot)
  have 1: "findall_host (lower (strip mm)) = [lower (d1 @ [CHR ''.''] @ d2)]"
    unfolding st lh by (rule address_shape_host [OF ls])
  have 2: "mail_host (lower (strip mm)) = lower (d1 @ [CHR ''.''] @ d2)"
  proof -
    have "strip (lower (d1 @ [CHR ''.''] @ d2)) = lower (d1 @ [CHR ''.''] @ d2)"
      unfolding lh by (rule host_strip [OF ls])
    then show ?thesis
      by (simp add: mail_host_def 1)
  qed
  from s st 1 2 address_shape_host [OF s] host_strip [OF s] show ?thesis by blast
qed

lemma mail_total:
  "\<exists>st. mail ext text = Inr st \<and> mail_inv ext st
     \<and> (\<forall>mm \<in> set (findall_mail text).
           mail_host (lower (strip mm)) \<notin> set (public_mail_services ext)
           \<longrightarrow> lower (strip mm) \<in> set (mails st))"
proof -
  have "\<forall>mm \<in> set (findall_mail text). findall_host (lower (strip mm)) \<noteq> []"
    using found_address_host by fastforce
  moreover have "mail_inv ext \<lparr>mails = [], mail_match_codes = [], mail_requests = []\<rparr>"
    by (simp add: mail_inv_def)
  ultimately show ?thesis
    unfolding mail_def using mail_loop_inv by blast
qed

lemma codes_mail:
  "mode r = ''mail'' \<Longrightarrow> mail ext (replace c ''<img'' []) = Inr st \<Longrightarrow>
   codes ext r c = Inr (replace c ''<img'' [], mail_match_codes st, mail_requests st)"
  by (simp add: codes_def Let_def)

text \<open>
  Claim C7. In mail mode \<open>codes\<close> returns (no step raises), and for every address found
  whose host is a dotted-quad IP literal classified as private, no request is made to
  \<open>http://<host>\<close>; unless the host is in the list of public mail services (then the
  address is skipped), the fragment \<open><address> http://<host> <Inner IP>\<close> is among
  the fragments returned.
\<close>

theorem private_ip_not_probed:
  assumes "mode r = ''mail''"
    and "mm \<in> set (findall_mail (replace c ''<img'' []))"
    and "is_inner_ip ext (mail_host (lower (strip mm)))"
  shows "\<exists>fragments requests.
           codes ext r c = Inr (replace c ''<img'' [], fragments, requests)
         \<and> ''http://'' @ mail_host (lower (strip mm)) \<notin> set requests
         \<and> (mail_host (lower (strip mm)) \<notin> set (public_mail_services ext) \<longrightarrow>
              lower (strip mm) @ '' http://'' @ mail_host (lower (strip mm)) @ '' <Inner IP>''
                \<in> set fragments)"
proof -
  let ?addr = "lower (strip mm)"
  let ?host = "mail_host ?addr"
  from mail_total [of ext "replace c ''<img'' []"] obtain st where
    m: "mail ext (replace c ''<img'' []) = Inr st" and inv: "mail_inv ext st"
    and all: "\<forall>mm \<in> set (findall_mail (replace c ''<img'' [])).
           mail_host (lower (strip mm)) \<notin> set (public_mail_services ext)
           \<longrightarrow> lower (strip mm) \<in> set (mails st)"
    by blast
  have no: "''http://'' @ ?host \<notin> set (mail_requests st)"
  proof
    assume "''http://'' @ ?host \<in> set (mail_requests st)"
    with inv obtain addr where "''http://'' @ ?host = mail_domain ext (mail_host addr)"
      "\<not> is_inner_ip ext (mail_host addr)"
      unfolding mail_inv_def by blast
    with domain_not_inner [OF assms(3), of "mail_host addr"] show False by simp
  qed
  have fr: "?addr @ '' http://'' @ ?host @ '' <Inner IP>'' \<in> set (mail_match_codes st)"
    if "?host \<notin> set (public_mail_services ext)"
  proof -
    from all assms(2) that have "?addr \<in> set (mails st)" by blast
    with inv have "mail_fragment ext ?addr ?host \<in> set (mail_match_codes st)"
      unfolding mail_inv_def by simp
    moreover have "mail_fragment ext ?addr ?host = ?addr @ '' http://'' @ ?host @ '' <Inner IP>''"
      using assms(3) by (simp add: mail_fragment_def inner_ip_domain)
    ultimately show ?thesis by simp
  qed
  from codes_mail [OF assms(1) m] no fr show ?thesis by blast
qed

theorem private_ip_not_probed_witness:
  "mode \<lparr>keyword = ''@'', extension = None, mode = ''mail''\<rparr> = ''mail''
   \<and> ''Root@10.0.0.1'' \<in> set (findall_mail (replace ''<img Root@10.0.0.1 ops@8.8.8.8'' ''<img'' []))
   \<and> is_inner_ip example_externals (mail_host (lower (strip ''Root@10.0.0.1'')))
   \<and> mail_host (lower (strip ''Root@10.0.0.1'')) \<notin> set (public_mail_services example_externals)
   \<and> codes example_externals \<lparr>keyword = ''@'', extension = None, mode = ''mail''\<rparr>
        ''<img Root@10.0.0.1 ops@8.8.8.8''
       = Inr ('' Root@10.0.0.1 ops@8.8.8.8'',
              [''root@10.0.0.1 http://10.0.0.1 <Inner IP>'',
               ''ops@8.8.8.8 http://8.8.8.8 <timed out>''],
              [''http://8.8.8.8''])
   \<and> ''http://'' @ mail_host (lower (strip ''Root@10.0.0.1'')) \<notin> set [''http://8.8.8.8'']
   \<and> lower (strip ''Root@10.0.0.1'') @ '' http://'' @ mail_host (lower (strip ''Root@10.0.0.1''))
        @ '' <Inner IP>''
       \<in> set [''root@10.0.0.1 http://10.0.0.1 <Inner IP>'',
               ''ops@8.8.8.8 http://8.8.8.8 <timed out>'']"
proof -
  let ?r = "\<lparr>keyword = ''@'', extension = None, mode = ''mail''\<rparr>"
  have h1: "mode ?r = ''mail''" by simp
  have h2: "''Root@10.0.0.1'' \<in> set (findall_mail (replace ''<img Root@10.0.0.1 ops@8.8.8.8'' ''<img'' []))"
    by code_simp
  have h3: "is_inner_ip example_externals (mail_host (lower (strip ''Root@10.0.0.1'')))"
    by code_simp
  have h4: "mail_host (lower (strip ''Root@10.0.0.1'')) \<notin> set (public_mail_services example_externals)"
    by code_simp
  have ev: "codes example_externals ?r ''<img Root@10.0.0.1 ops@8.8.8.8''
       = Inr ('' Root@10.0.0.1 ops@8.8.8.8'',
              [''root@10.0.0.1 http://10.0.0.1 <Inner IP>'',
               ''ops@8.8.8.8 http://8.8.8.8 <timed out>''],
              [''http://8.8.8.8''])"
    by code_simp
  from private_ip_not_probed [OF h1 h2 h3] ev h4
  have "''http://'' @ mail_host (lower (strip ''Root@10.0.0.1'')) \<notin> set [''http://8.8.8.8'']"
    "lower (strip ''Root@10.0.0.1'') @ '' http://'' @ mail_host (lower (strip ''Root@10.0.0.1''))
        @ '' <Inner IP>''
       \<in> set [''root@10.0.0.1 http://10.0.0.1 <Inner IP>'',
               ''ops@8.8.8.8 http://8.8.8.8 <timed out>'']"
    by auto
  with h1 h2 h3 h4 ev show ?thesis by blast
qed

text \<open>
  The addresses kept by \<open>_mail\<close> are exactly the lower-cased, stripped addresses found whose
  host is outside the list of public mail services, each once; no address holds a space,
  so the address of a fragment is what precedes its first space.
\<close>

lemma mail_step_mails:
  assumes "findall_host (lower (strip mm)) \<noteq> []" "mail_step ext mm st = Inr st'"
    and "distinct (mails st)"
  shows "distinct (mails st')
       \<and> (\<forall>a \<in> set (mails st'). a \<in> set (mails st)
              \<or> (a = lower (strip mm) \<and> mail_host a \<notin> set (public_mail_services ext)))"
  using assms(2,3) unfolding mail_step_cases [OF assms(1)]
  by (auto split: if_splits)

lemma mail_loop_mails:
  assumes "\<forall>mm \<in> set mail_multi. findall_host (lower (strip mm)) \<noteq> []"
    and "mail_loop ext mail_multi st = Inr st'" "distinct (mails st)"
  shows "distinct (mails st')
       \<and> (\<forall>a \<in> set (mails st'). a \<in> set (mails st)
              \<or> (\<exists>mm \<in> set mail_multi. a = lower (strip mm)
                    \<and> mail_host a \<notin> set (public_mail_services ext)))"
  using assms
proof (induction mail_multi arbitrary: st)
  case Nil
  then show ?case by simp
next
  case (Cons mm mail_multi)
  from Cons.prems have h: "findall_host (lower (strip mm)) \<noteq> []" by simp
  from Cons.prems(2) obtain st1 where 1: "mail_step ext mm st = Inr st1"
    and 2: "mail_loop ext mail_multi st1 = Inr st'"
    by (auto split: sum.splits)
  from mail_step_mails [OF h 1 Cons.prems(3)]
  have d1: "distinct (mails st1)"
    and m1: "\<forall>a \<in> set (mails st1). a \<in> set (mails st)
              \<or> (a = lower (strip mm) \<and> mail_host a \<notin> set (public_mail_services ext))"
    by simp_all
  from Cons.prems have "\<forall>mm \<in> set mail_multi. findall_host (lower (strip mm)) \<noteq> []" by simp
  from Cons.IH [OF this 2 d1]
  have d: "distinct (mails st')"
    and m: "\<forall>a \<in> set (mails st'). a \<in> set (mails st1)
              \<or> (\<exists>mm \<in> set mail_multi. a = lower (strip mm)
                    \<and> mail_host a \<notin> set (public_mail_services ext))"
    by simp_all
  from m m1 have "\<forall>a \<in> set (mails st'). a \<in> set (mails st)
              \<or> (\<exists>x \<in> set (mm # mail_multi). a = lower (strip x)
                    \<and> mail_host a \<notin> set (public_mail_services ext))"
    by (metis list.set_intros(1) list.set_intros(2))
  with d show ?case by simp
qed

lemma mail_kept:
  "\<exists>st. mail ext src = Inr st \<and> mail_inv ext st \<and> distinct (mails st)
     \<and> set (mails st)
         = {lower (strip mm) | mm. mm \<in> set (findall_mail src)
              \<and> mail_host (lower (strip mm)) \<notin> set (public_mail_services ext)}"
proof -
  from mail_total [of ext src] obtain st where
    m: "mail ext src = Inr st" and inv: "mail_inv ext st"
    and all: "\<forall>mm \<in> set (findall_mail src).
           mail_host (lower (strip mm)) \<notin> set (public_mail_services ext)
           \<longrightarrow> lower (strip mm) \<in> set (mails st)"
    by blast
  have ne: "\<forall>mm \<in> set (findall_mail src). findall_host (lower (strip mm)) \<noteq> []"
    using found_address_host by fastforce
  from m have l: "mail_loop ext (findall_mail src)
                    \<lparr>mails = [], mail_match_codes = [], mail_requests = []\<rparr> = Inr st"
    by (simp add: mail_def)
  from mail_loop_mails [OF ne l]
  have d: "distinct (mails st)"
    and b: "\<forall>a \<in> set (mails st). \<exists>mm \<in> set (findall_mail src). a = lower (strip mm)
                    \<and> mail_host a \<notin> set (public_mail_services ext)"
    by simp_all
  have "set (mails st)
         = {lower (strip mm) | mm. mm \<in> set (findall_mail src)
              \<and> mail_host (lower (strip mm)) \<notin> set (public_mail_services ext)}"
  proof (intro set_eqI iffI)
    fix a assume "a \<in> set (mails st)"
    with b show "a \<in> {lower (strip mm) | mm. mm \<in> set (findall_mail src)
              \<and> mail_host (lower (strip mm)) \<notin> set (public_mail_services ext)}"
      by auto
  next
    fix a assume "a \<in> {lower (strip mm) | mm. mm \<in> set (findall_mail src)
              \<and> mail_host (lower (strip mm)) \<notin> set (public_mail_services ext)}"
    with all show "a \<in> set (mails st)" by auto
  qed
  with m inv d show ?thesis by blast
qed

lemma space_not_local: "\<not> local_char (CHR '' '')"
  by (simp add: local_char_def is_alnum_def)

lemma kept_address_no_space:
  assumes "mm \<in> set (findall_mail src)"
  shows "CHR '' '' \<notin> set (lower (strip mm))"
proof -
  from found_address_host [OF assms] obtain l d1 d2 where
    s: "address_shape mm l d1 d2" and st: "strip mm = mm"
    by blast
  from address_shape_chars [OF address_shape_lower [OF s]] space_not_local
  show ?thesis unfolding st by auto
qed

lemma fragment_address:
  assumes "CHR '' '' \<notin> set addr"
  shows "takeWhile (\<lambda>c. c \<noteq> CHR '' '') (mail_fragment ext addr host) = addr"
proof -
  obtain rest where f: "mail_fragment ext addr host = addr @ CHR '' '' # rest"
    by (simp add: mail_fragment_def Let_def)
  have "takeWhile (\<lambda>c. c \<noteq> CHR '' '') (addr @ CHR '' '' # rest)
          = takeWhile (\<lambda>c. c \<noteq> CHR '' '') addr"
    by (rule takeWhile_tail) simp
  also have "\<dots> = addr"
    using assms by (simp add: takeWhile_eq_all_conv) blast
  finally show ?thesis by (simp only: f)
qed

text \<open>
  Claim C8. In mail mode \<open>codes\<close> returns one fragment for each address kept, in order,
  and the part of each fragment before its first space is that address. The addresses kept
  are distinct, and they are exactly the lower-cased addresses found in the text whose
  host, as written in the text and then lower-cased, is outside the list of public mail
  services. So the host of every address kept is outside that list, and an address found
  in the text whose host, lower-cased, is in the list is not kept, in whatever case the
  host is written in the text.
\<close>

theorem public_mail_never_emitted:
  assumes "mode r = ''mail''"
  shows "\<exists>st. mail ext (replace c ''<img'' []) = Inr st
         \<and> codes ext r c = Inr (replace c ''<img'' [], mail_match_codes st, mail_requests st)
         \<and> mail_match_codes st = map (\<lambda>addr. mail_fragment ext addr (mail_host addr)) (mails st)
         \<and> map (takeWhile (\<lambda>ch. ch \<noteq> CHR '' '')) (mail_match_codes st) = mails st
         \<and> distinct (mails st)
         \<and> set (mails st)
             = {lower (strip mm) | mm. mm \<in> set (findall_mail (replace c ''<img'' []))
                  \<and> (\<forall>h. findall_host mm = [h] \<longrightarrow> lower h \<notin> set (public_mail_services ext))}
         \<and> (\<forall>addr \<in> set (mails st). mail_host addr \<notin> set (public_mail_services ext))
         \<and> (\<forall>mm \<in> set (findall_mail (replace c ''<img'' [])).
               \<forall>h. findall_host mm = [h] \<and> lower h \<in> set (public_mail_services ext) \<longrightarrow>
                   lower (strip mm) \<notin> set (mails st))"
proof -
  let ?found = "findall_mail (replace c ''<img'' [])"
  from mail_kept [of ext "replace c ''<img'' []"] obtain st where
    m: "mail ext (replace c ''<img'' []) = Inr st" and inv: "mail_inv ext st"
    and d: "distinct (mails st)"
    and k: "set (mails st)
         = {lower (strip mm) | mm. mm \<in> set ?found
              \<and> mail_host (lower (strip mm)) \<notin> set (public_mail_services ext)}"
    by blast
  have fr: "mail_match_codes st = map (\<lambda>addr. mail_fragment ext addr (mail_host addr)) (mails st)"
    and p: "\<forall>addr \<in> set (mails st). mail_host addr \<notin> set (public_mail_services ext)"
    using inv unfolding mail_inv_def by blast+
  have hh: "(mail_host (lower (strip mm)) \<notin> set (public_mail_services ext))
            = (\<forall>h. findall_host mm = [h] \<longrightarrow> lower h \<notin> set (public_mail_services ext))"
    if "mm \<in> set ?found" for mm
    using found_address_host [OF that] by auto
  have k': "set (mails st)
             = {lower (strip mm) | mm. mm \<in> set ?found
                  \<and> (\<forall>h. findall_host mm = [h] \<longrightarrow> lower h \<notin> set (public_mail_services ext))}"
    unfolding k using hh by blast
  have sp: "\<forall>addr \<in> set (mails st). CHR '' '' \<notin> set addr"
    unfolding k using kept_address_no_space by blast
  have tw: "map (takeWhile (\<lambda>ch. ch \<noteq> CHR '' '')) (mail_match_codes st) = mails st"
    unfolding fr using sp by (simp add: fragment_address map_idI)
  have dr: "\<forall>mm \<in> set ?found.
               \<forall>h. findall_host mm = [h] \<and> lower h \<in> set (public_mail_services ext) \<longrightarrow>
                   lower (strip mm) \<notin> set (mails st)"
  proof (intro ballI allI impI)
    fix mm h
    assume mm: "mm \<in> set ?found"
      and h: "findall_host mm = [h] \<and> lower h \<in> set (public_mail_services ext)"
    from found_address_host [OF mm] h
    have "mail_host (lower (strip mm)) = lower h" by auto
    with h p show "lower (strip mm) \<notin> set (mails st)" by auto
  qed
  from codes_mail [OF assms m] m fr tw d k' p dr show ?thesis
    by blast
qed

theorem public_mail_never_emitted_witness:
  "mode \<lparr>keyword = ''@'', extension = None, mode = ''mail''\<rparr> = ''mail''
   \<and> ''A@QQ.com'' \<in> set (findall_mail (replace ''A@QQ.com b@X.org'' ''<img'' []))
   \<and> findall_host ''A@QQ.com'' = [''QQ.com'']
   \<and> lower ''QQ.com'' \<in> set (public_mail_services example_externals)
   \<and> ''b@X.org'' \<in> set (findall_mail (replace ''A@QQ.com b@X.org'' ''<img'' []))
   \<and> findall_host ''b@X.org'' = [''X.org'']
   \<and> lower ''X.org'' \<notin> set (public_mail_services example_externals)
   \<and> (\<exists>st. mail example_externals (replace ''A@QQ.com b@X.org'' ''<img'' []) = Inr st
         \<and> codes example_externals \<lparr>keyword = ''@'', extension = None, mode = ''mail''\<rparr>
              ''A@QQ.com b@X.org''
             = Inr (''A@QQ.com b@X.org'', [''b@x.org http://www.x.org <timed out>''],
                    [''http://www.x.org''])
         \<and> mail_match_codes st = [''b@x.org http://www.x.org <timed out>'']
         \<and> mails st = [''b@x.org'']
         \<and> lower (strip ''A@QQ.com'') \<notin> set (mails st)
         \<and> lower (strip ''b@X.org'') \<in> set (mails st))"
proof -
  let ?r = "\<lparr>keyword = ''@'', extension = None, mode = ''mail''\<rparr>"
  have h1: "mode ?r = ''mail''" by simp
  have h2: "''A@QQ.com'' \<in> set (findall_mail (replace ''A@QQ.com b@X.org'' ''<img'' []))"
    by code_simp
  have h3: "findall_host ''A@QQ.com'' = [''QQ.com'']"
    by code_simp
  have h4: "lower ''QQ.com'' \<in> set (public_mail_services example_externals)"
    by code_simp
  have h5: "''b@X.org'' \<in> set (findall_mail (replace ''A@QQ.com b@X.org'' ''<img'' []))"
    by code_simp
  have h6: "findall_host ''b@X.org'' = [''X.org'']"
    by code_simp
  have h7: "lower ''X.org'' \<notin> set (public_mail_services example_externals)"
    by code_simp
  have lw: "lower (strip ''b@X.org'') = ''b@x.org''"
    by code_simp
  have tk: "takeWhile (\<lambda>ch. ch \<noteq> CHR '' '') ''b@x.org http://www.x.org <timed out>'' = ''b@x.org''"
    by simp
  have ev: "codes example_externals ?r ''A@QQ.com b@X.org''
             = Inr (''A@QQ.com b@X.org'', [''b@x.org http://www.x.org <timed out>''],
                    [''http://www.x.org''])"
    by code_simp
  from public_mail_never_emitted [OF h1, of example_externals "''A@QQ.com b@X.org''"]
  obtain st where st: "mail example_externals (replace ''A@QQ.com b@X.org'' ''<img'' []) = Inr st"
    and c: "codes example_externals ?r ''A@QQ.com b@X.org''
              = Inr (replace ''A@QQ.com b@X.org'' ''<img'' [], mail_match_codes st, mail_requests st)"
    and tw: "map (takeWhile (\<lambda>ch. ch \<noteq> CHR '' '')) (mail_match_codes st) = mails st"
    and n: "\<forall>mm \<in> set (findall_mail (replace ''A@QQ.com b@X.org'' ''<img'' [])).
               \<forall>h. findall_host mm = [h] \<and> lower h \<in> set (public_mail_services example_externals) \<longrightarrow>
                   lower (strip mm) \<notin> set (mails st)"
    by blast
  from n h2 h3 h4 have 1: "lower (strip ''A@QQ.com'') \<notin> set (mails st)" by blast
  from c ev have 2: "mail_match_codes st = [''b@x.org http://www.x.org <timed out>'']" by simp
  from tw have 3: "mails st = [''b@x.org'']"
    unfolding 2 by (simp only: list.map tk)
  from 3 lw have 4: "lower (strip ''b@X.org'') \<in> set (mails st)" by simp
  from h1 h2 h3 h4 h5 h6 h7 st ev 1 2 3 4 show ?thesis by blast
qed

end
